theory Spec2Isabelle
  imports Complex_Main "HOL-Library.Log_Nat"
begin

section \<open>JavaScript numbers\<close>

text \<open>
  Every number of the program is a JavaScript number, an IEEE 754 binary64 value.
  A finite value is kept as the real it denotes; the two infinities and NaN are
  constructors of their own. The two zeros are one value \<open>Fin 0\<close>: the program
  never observes the sign of a zero except through the sign of a quotient by zero,
  where the divisor is read as \<open>+0\<close>.
\<close>

datatype jsnum = Fin real | PInf | NInf | NaN

text \<open>
  \<open>ilog2 x\<close> is the binary exponent of a positive real: the \<open>k\<close> with
  \<open>2 powi k \<le> x < 2 powi (k + 1)\<close>.
\<close>

definition ilog2 :: "real \<Rightarrow> int" where
  "ilog2 x = (if 1 \<le> x then bitlen \<lfloor>x\<rfloor> - 1 else - bitlen (\<lceil>1 / x\<rceil> - 1))"

text \<open>
  The exponent of the last place of the binary64 values next to \<open>x\<close>: 53 significant
  bits, and never below the subnormal spacing \<open>2 powi (- 1074)\<close>.
\<close>

definition expo :: "real \<Rightarrow> int" where
  "expo x = max (ilog2 \<bar>x\<bar> - 52) (- 1074)"

text \<open>Rounding to the nearest integer, a tie going to the even one.\<close>

definition rhe :: "real \<Rightarrow> int" where
  "rhe r = (let f = \<lfloor>r\<rfloor>; d = r - of_int f in
     if d < 1 / 2 then f else if 1 / 2 < d then f + 1 else if even f then f else f + 1)"

text \<open>
  Round to nearest, ties to even, of an exact real result: the rounding every
  arithmetic operator of JavaScript applies. A result that rounds to magnitude
  \<open>2 ^ 1024\<close> or more overflows to an infinity.
\<close>

definition rnd :: "real \<Rightarrow> jsnum" where
  "rnd x = (if x = 0 then Fin 0 else
     let e = expo x; y = of_int (rhe (x / 2 powi e)) * 2 powi e in
     if 2 ^ 1024 \<le> \<bar>y\<bar> then (if 0 < x then PInf else NInf) else Fin y)"

text \<open>A real is a binary64 value exactly when rounding leaves it as it is.\<close>

definition representable :: "real \<Rightarrow> bool" where
  "representable x \<longleftrightarrow> rnd x = Fin x"

text \<open>\<open>Number.isFinite\<close>.\<close>

fun isFinite :: "jsnum \<Rightarrow> bool" where
  "isFinite (Fin x) = True"
| "isFinite PInf = False"
| "isFinite NInf = False"
| "isFinite NaN = False"

text \<open>
  The values of the model that are JavaScript numbers: a finite one is a binary64 value.
\<close>

fun js_number :: "jsnum \<Rightarrow> bool" where
  "js_number (Fin x) = representable x"
| "js_number PInf = True"
| "js_number NInf = True"
| "js_number NaN = True"

fun js_neg :: "jsnum \<Rightarrow> jsnum" where
  "js_neg (Fin a) = Fin (- a)"
| "js_neg PInf = NInf"
| "js_neg NInf = PInf"
| "js_neg NaN = NaN"

fun js_add :: "jsnum \<Rightarrow> jsnum \<Rightarrow> jsnum" where
  "js_add (Fin a) (Fin b) = rnd (a + b)"
| "js_add NaN b = NaN"
| "js_add a NaN = NaN"
| "js_add PInf NInf = NaN"
| "js_add NInf PInf = NaN"
| "js_add PInf b = PInf"
| "js_add NInf b = NInf"
| "js_add a PInf = PInf"
| "js_add a NInf = NInf"

definition js_sub :: "jsnum \<Rightarrow> jsnum \<Rightarrow> jsnum" where
  "js_sub a b = js_add a (js_neg b)"

fun js_mul :: "jsnum \<Rightarrow> jsnum \<Rightarrow> jsnum" where
  "js_mul (Fin a) (Fin b) = rnd (a * b)"
| "js_mul NaN b = NaN"
| "js_mul a NaN = NaN"
| "js_mul PInf (Fin b) = (if b = 0 then NaN else if 0 < b then PInf else NInf)"
| "js_mul NInf (Fin b) = (if b = 0 then NaN else if 0 < b then NInf else PInf)"
| "js_mul (Fin a) PInf = (if a = 0 then NaN else if 0 < a then PInf else NInf)"
| "js_mul (Fin a) NInf = (if a = 0 then NaN else if 0 < a then NInf else PInf)"
| "js_mul PInf PInf = PInf"
| "js_mul PInf NInf = NInf"
| "js_mul NInf PInf = NInf"
| "js_mul NInf NInf = PInf"

text \<open>
  \<open>a / b\<close>. A zero divisor is read as \<open>+0\<close>; with the divisor \<open>-0\<close> JavaScript returns
  the infinity of the opposite sign. Where a result below names the sign of a quotient
  by zero, the divisor is the difference of two equal finite numbers, which is \<open>+0\<close>.
\<close>

fun js_div :: "jsnum \<Rightarrow> jsnum \<Rightarrow> jsnum" where
  "js_div (Fin a) (Fin b) =
     (if b = 0 then (if a = 0 then NaN else if 0 < a then PInf else NInf)
      else rnd (a / b))"
| "js_div NaN b = NaN"
| "js_div a NaN = NaN"
| "js_div (Fin a) PInf = Fin 0"
| "js_div (Fin a) NInf = Fin 0"
| "js_div PInf (Fin b) = (if 0 \<le> b then PInf else NInf)"
| "js_div NInf (Fin b) = (if 0 \<le> b then NInf else PInf)"
| "js_div PInf PInf = NaN"
| "js_div PInf NInf = NaN"
| "js_div NInf PInf = NaN"
| "js_div NInf NInf = NaN"

text \<open>\<open>a <= b\<close>: false as soon as one side is NaN.\<close>

fun js_le :: "jsnum \<Rightarrow> jsnum \<Rightarrow> bool" where
  "js_le (Fin a) (Fin b) = (a \<le> b)"
| "js_le NaN b = False"
| "js_le a NaN = False"
| "js_le NInf b = True"
| "js_le a PInf = True"
| "js_le PInf b = False"
| "js_le a NInf = False"

text \<open>\<open>a >= b\<close>.\<close>

definition js_ge :: "jsnum \<Rightarrow> jsnum \<Rightarrow> bool" where
  "js_ge a b = js_le b a"

text \<open>\<open>a == b\<close> on numbers: NaN equals nothing, itself included.\<close>

definition js_eq :: "jsnum \<Rightarrow> jsnum \<Rightarrow> bool" where
  "js_eq a b \<longleftrightarrow> a = b \<and> a \<noteq> NaN"

text \<open>
  The literals \<open>0.01\<close> and \<open>0.5\<close> and the constant \<open>Math.PI\<close>, as the binary64
  values they denote.
\<close>

definition lit_0_01 :: jsnum where
  "lit_0_01 = Fin (5764607523034235 / 2 ^ 59)"

definition lit_0_5 :: jsnum where
  "lit_0_5 = Fin (1 / 2)"

definition Math_PI :: jsnum where
  "Math_PI = Fin (884279719003555 / 2 ^ 48)"

section \<open>Scene state\<close>

record vector3 =
  vec_x :: jsnum
  vec_y :: jsnum
  vec_z :: jsnum

record mesh =
  position :: vector3
  rotation :: vector3

text \<open>
  The orientation of the camera is only ever written by \<open>camera.lookAt(target)\<close>,
  which derives it from the position the camera has at the call and from the target.
  It is kept as that pair; \<open>None\<close> is the orientation of a new camera.
\<close>

record perspective_camera =
  cam_position :: vector3
  cam_lookAt :: "(vector3 \<times> vector3) option"
  aspect :: jsnum
  projection_aspect :: jsnum

record size =
  width :: jsnum
  height :: jsnum

record webgl_renderer =
  render_width :: jsnum
  render_height :: jsnum
  pixel_ratio :: jsnum

datatype event_type = Scroll | Resize

datatype handler = HandleScroll | HandleResize

datatype resource = BoxGeometry | BoxMaterial | TorusGeometry | TorusMaterial | Renderer

text \<open>The module's variables, and the listeners registered on \<open>window\<close>.\<close>

record state =
  scrollPercent :: jsnum
  box :: mesh
  torus :: mesh
  camera :: perspective_camera
  sizes :: size
  renderer :: webgl_renderer
  listeners :: "(event_type \<times> handler) list"
  disposed :: "resource list"

text \<open>What the handlers read from the browser when an event is delivered.\<close>

record browser =
  scrollTop :: jsnum
  scrollHeight :: jsnum
  clientHeight :: jsnum
  innerWidth :: jsnum
  innerHeight :: jsnum
  devicePixelRatio :: jsnum

section \<open>Constants\<close>

definition BOX_INITIAL_POSITION :: vector3 where
  "BOX_INITIAL_POSITION = \<lparr>vec_x = Fin 0, vec_y = lit_0_5, vec_z = Fin (- 15)\<rparr>"

definition BOX_INITIAL_ROTATION :: vector3 where
  "BOX_INITIAL_ROTATION = \<lparr>vec_x = Fin 1, vec_y = Fin 1, vec_z = Fin 0\<rparr>"

definition TORUS_INITIAL_POSITION :: vector3 where
  "TORUS_INITIAL_POSITION = \<lparr>vec_x = Fin 0, vec_y = Fin 1, vec_z = Fin 10\<rparr>"

definition CAMERA_DEFAULT_POSITION :: vector3 where
  "CAMERA_DEFAULT_POSITION = \<lparr>vec_x = Fin 0, vec_y = Fin 1, vec_z = Fin 10\<rparr>"

datatype range_key = INTRO | ROTATION | CAMERA_MOVE | FINAL_SPIN

record range =
  range_start :: jsnum
  range_end :: jsnum

fun ANIMATION_RANGES :: "range_key \<Rightarrow> range" where
  "ANIMATION_RANGES INTRO = \<lparr>range_start = Fin 0, range_end = Fin 40\<rparr>"
| "ANIMATION_RANGES ROTATION = \<lparr>range_start = Fin 40, range_end = Fin 60\<rparr>"
| "ANIMATION_RANGES CAMERA_MOVE = \<lparr>range_start = Fin 60, range_end = Fin 80\<rparr>"
| "ANIMATION_RANGES FINAL_SPIN = \<lparr>range_start = Fin 80, range_end = Fin 100\<rparr>"

section \<open>Utility functions\<close>

definition lerp :: "jsnum \<Rightarrow> jsnum \<Rightarrow> jsnum \<Rightarrow> jsnum" where
  "lerp start end' alpha = js_add (js_mul (js_sub (Fin 1) alpha) start) (js_mul alpha end')"

text \<open>\<open>scalePercent(start, end)\<close> reads the module variable \<open>scrollPercent\<close>.\<close>

definition scalePercent :: "jsnum \<Rightarrow> jsnum \<Rightarrow> state \<Rightarrow> jsnum" where
  "scalePercent start end' s = js_div (js_sub (scrollPercent s) start) (js_sub end' start)"

text \<open>\<open>camera.lookAt(box.position)\<close>.\<close>

definition camera_lookAt_box :: "state \<Rightarrow> state" where
  "camera_lookAt_box s =
     s\<lparr>camera := (camera s)\<lparr>cam_lookAt := Some (cam_position (camera s), position (box s))\<rparr>\<rparr>"

text \<open>The camera looks at the box first and is moved afterwards, as in the source.\<close>

definition setCameraToDefault :: "state \<Rightarrow> state" where
  "setCameraToDefault s =
     (let s1 = camera_lookAt_box s
      in s1\<lparr>camera := (camera s1)\<lparr>cam_position := CAMERA_DEFAULT_POSITION\<rparr>\<rparr>)"

section \<open>The timeline\<close>

text \<open>
  An entry of \<open>animationScripts\<close>. The field \<open>anim_key\<close> is not in the source: it
  records which range the entry was built from, so that a trace can name it.
\<close>

record animation =
  anim_key :: range_key
  anim_start :: jsnum
  anim_end :: jsnum
  anim_function :: "state \<Rightarrow> state"

definition intro_function :: "state \<Rightarrow> state" where
  "intro_function s =
     (let s1 = setCameraToDefault s;
          s2 = s1\<lparr>box := (box s1)\<lparr>position := (position (box s1))
                 \<lparr>vec_z := lerp (Fin (- 15)) (Fin 2)
                    (scalePercent (range_start (ANIMATION_RANGES INTRO))
                       (range_end (ANIMATION_RANGES INTRO)) s1)\<rparr>\<rparr>\<rparr>
      in s2\<lparr>torus := (torus s2)\<lparr>position := (position (torus s2))
                 \<lparr>vec_z := lerp (Fin 10) (Fin (- 20))
                    (scalePercent (range_start (ANIMATION_RANGES INTRO))
                       (range_end (ANIMATION_RANGES INTRO)) s2)\<rparr>\<rparr>\<rparr>)"

definition rotation_function :: "state \<Rightarrow> state" where
  "rotation_function s =
     (let s1 = setCameraToDefault s
      in s1\<lparr>box := (box s1)\<lparr>rotation := (rotation (box s1))
                 \<lparr>vec_z := lerp (Fin 1) Math_PI
                    (scalePercent (range_start (ANIMATION_RANGES ROTATION))
                       (range_end (ANIMATION_RANGES ROTATION)) s1)\<rparr>\<rparr>\<rparr>)"

definition camera_move_function :: "state \<Rightarrow> state" where
  "camera_move_function s =
     (let s1 = camera_lookAt_box s;
          s2 = s1\<lparr>camera := (camera s1)\<lparr>cam_position := (cam_position (camera s1))
                 \<lparr>vec_x := lerp (Fin 0) (Fin (- 15))
                    (scalePercent (range_start (ANIMATION_RANGES CAMERA_MOVE))
                       (range_end (ANIMATION_RANGES CAMERA_MOVE)) s1)\<rparr>\<rparr>\<rparr>;
          s3 = s2\<lparr>camera := (camera s2)\<lparr>cam_position := (cam_position (camera s2))
                 \<lparr>vec_y := lerp (Fin 1) (Fin (- 15))
                    (scalePercent (range_start (ANIMATION_RANGES CAMERA_MOVE))
                       (range_end (ANIMATION_RANGES CAMERA_MOVE)) s2)\<rparr>\<rparr>\<rparr>
      in s3\<lparr>camera := (camera s3)\<lparr>cam_position := (cam_position (camera s3))
                 \<lparr>vec_z := lerp (Fin 10) (Fin 25)
                    (scalePercent (range_start (ANIMATION_RANGES CAMERA_MOVE))
                       (range_end (ANIMATION_RANGES CAMERA_MOVE)) s3)\<rparr>\<rparr>\<rparr>)"

text \<open>
  The last entry, in the revision of the source that documents its functions:
  the interpolation starts at \<open>BOX_INITIAL_ROTATION\<close> and ends at \<open>Math.PI * 4\<close>.
\<close>

definition final_spin_function :: "state \<Rightarrow> state" where
  "final_spin_function s =
     (let progress = scalePercent (range_start (ANIMATION_RANGES FINAL_SPIN))
                       (range_end (ANIMATION_RANGES FINAL_SPIN)) s;
          s1 = s\<lparr>box := (box s)\<lparr>rotation := (rotation (box s))
                 \<lparr>vec_x := lerp (vec_x BOX_INITIAL_ROTATION)
                    (js_mul Math_PI (Fin 4)) progress\<rparr>\<rparr>\<rparr>
      in s1\<lparr>box := (box s1)\<lparr>rotation := (rotation (box s1))
                 \<lparr>vec_y := lerp (vec_y BOX_INITIAL_ROTATION)
                    (js_mul Math_PI (Fin 4)) progress\<rparr>\<rparr>\<rparr>)"

text \<open>
  The last entry in \<open>src/main.js\<close>: the interpolation starts at the rotation the
  box has at the call and ends at \<open>Math.PI * 2\<close>.
\<close>

definition final_spin_function_main :: "state \<Rightarrow> state" where
  "final_spin_function_main s =
     (let targetRotation = js_mul Math_PI (Fin 2);
          progress = scalePercent (range_start (ANIMATION_RANGES FINAL_SPIN))
                       (range_end (ANIMATION_RANGES FINAL_SPIN)) s;
          s1 = s\<lparr>box := (box s)\<lparr>rotation := (rotation (box s))
                 \<lparr>vec_x := lerp (vec_x (rotation (box s))) targetRotation progress\<rparr>\<rparr>\<rparr>
      in s1\<lparr>box := (box s1)\<lparr>rotation := (rotation (box s1))
                 \<lparr>vec_y := lerp (vec_y (rotation (box s1))) targetRotation progress\<rparr>\<rparr>\<rparr>)"

definition entry :: "range_key \<Rightarrow> (state \<Rightarrow> state) \<Rightarrow> animation" where
  "entry k f = \<lparr>anim_key = k, anim_start = range_start (ANIMATION_RANGES k),
     anim_end = range_end (ANIMATION_RANGES k), anim_function = f\<rparr>"

definition animationScripts :: "animation list" where
  "animationScripts =
     [entry INTRO intro_function, entry ROTATION rotation_function,
      entry CAMERA_MOVE camera_move_function, entry FINAL_SPIN final_spin_function]"

definition animationScripts_main :: "animation list" where
  "animationScripts_main =
     [entry INTRO intro_function, entry ROTATION rotation_function,
      entry CAMERA_MOVE camera_move_function, entry FINAL_SPIN final_spin_function_main]"

section \<open>The scheduler\<close>

definition isInRange :: "animation \<Rightarrow> state \<Rightarrow> bool" where
  "isInRange a s \<longleftrightarrow> js_ge (scrollPercent s) (anim_start a) \<and> js_le (scrollPercent s) (anim_end a)"

text \<open>
  The loop \<open>for (const animation of animationScripts) { if (isInRange) { ...; break; } }\<close>.
  It returns the keys of the entries whose function it called, and the state.
\<close>

fun for_of_break :: "animation list \<Rightarrow> state \<Rightarrow> range_key list \<times> state" where
  "for_of_break [] s = ([], s)"
| "for_of_break (a # as) s =
     (if isInRange a s then ([anim_key a], anim_function a s) else for_of_break as s)"

text \<open>The loop \<open>animationScripts.forEach(...)\<close> of \<open>src/main.js\<close>, which has no break.\<close>

fun forEach :: "animation list \<Rightarrow> state \<Rightarrow> range_key list \<times> state" where
  "forEach [] s = ([], s)"
| "forEach (a # as) s =
     (if isInRange a s
      then (let (ks, s') = forEach as (anim_function a s) in (anim_key a # ks, s'))
      else forEach as s)"

text \<open>The statement after the loop: the rotation that goes on at the bottom of the page.\<close>

definition idle_spin :: "state \<Rightarrow> state" where
  "idle_spin s =
     (if js_ge (scrollPercent s) (Fin 100)
      then (let s1 = s\<lparr>box := (box s)\<lparr>rotation := (rotation (box s))
                      \<lparr>vec_x := js_add (vec_x (rotation (box s))) lit_0_01\<rparr>\<rparr>\<rparr>
            in s1\<lparr>box := (box s1)\<lparr>rotation := (rotation (box s1))
                      \<lparr>vec_y := js_add (vec_y (rotation (box s1))) lit_0_01\<rparr>\<rparr>\<rparr>)
      else s)"

text \<open>The entries one call of the scheduler runs, in the order it runs them.\<close>

definition fired :: "state \<Rightarrow> range_key list" where
  "fired s = fst (for_of_break animationScripts s)"

definition playScrollAnimation :: "state \<Rightarrow> state" where
  "playScrollAnimation s = idle_spin (snd (for_of_break animationScripts s))"

definition fired_main :: "state \<Rightarrow> range_key list" where
  "fired_main s = fst (forEach animationScripts_main s)"

definition playScrollAnimation_main :: "state \<Rightarrow> state" where
  "playScrollAnimation_main s = snd (forEach animationScripts_main s)"

text \<open>
  The source holds the module in two revisions, told apart here by the loop of their
  scheduler: the one with \<open>for ... of\<close>, \<open>break\<close> and the idle spin, whose functions
  are documented, and the one with \<open>forEach\<close> in \<open>src/main.js\<close>. They differ in the
  scheduler and in the last timeline entry; the rest of their code is the same.
\<close>

datatype revision = With_break | With_forEach

fun scheduler :: "revision \<Rightarrow> state \<Rightarrow> state" where
  "scheduler With_break = playScrollAnimation"
| "scheduler With_forEach = playScrollAnimation_main"

section \<open>Event listeners and cleanup\<close>

definition handleScroll :: "browser \<Rightarrow> state \<Rightarrow> state" where
  "handleScroll b s =
     s\<lparr>scrollPercent :=
         js_mul (js_div (scrollTop b) (js_sub (scrollHeight b) (clientHeight b))) (Fin 100)\<rparr>"

definition handleResize :: "browser \<Rightarrow> state \<Rightarrow> state" where
  "handleResize b s =
     (let s1 = s\<lparr>sizes := \<lparr>width = innerWidth b, height = innerHeight b\<rparr>\<rparr>;
          s2 = s1\<lparr>camera := (camera s1)
                 \<lparr>aspect := js_div (width (sizes s1)) (height (sizes s1))\<rparr>\<rparr>;
          s3 = s2\<lparr>camera := (camera s2)\<lparr>projection_aspect := aspect (camera s2)\<rparr>\<rparr>
      in s3\<lparr>renderer := \<lparr>render_width = width (sizes s3), render_height = height (sizes s3),
                          pixel_ratio = devicePixelRatio b\<rparr>\<rparr>)"

fun call_handler :: "handler \<Rightarrow> browser \<Rightarrow> state \<Rightarrow> state" where
  "call_handler HandleScroll b s = handleScroll b s"
| "call_handler HandleResize b s = handleResize b s"

text \<open>
  \<open>window.addEventListener\<close> registers a pair of type and callback once;
  \<open>window.removeEventListener\<close> takes that registration away.
\<close>

definition addEventListener :: "event_type \<Rightarrow> handler \<Rightarrow> state \<Rightarrow> state" where
  "addEventListener t h s =
     (if (t, h) \<in> set (listeners s) then s else s\<lparr>listeners := listeners s @ [(t, h)]\<rparr>)"

definition removeEventListener :: "event_type \<Rightarrow> handler \<Rightarrow> state \<Rightarrow> state" where
  "removeEventListener t h s = s\<lparr>listeners := remove1 (t, h) (listeners s)\<rparr>"

text \<open>
  Delivering an event calls, in the order of registration, the listeners that were
  registered for its type when the delivery began.
\<close>

fun call_listeners :: "(event_type \<times> handler) list \<Rightarrow> event_type \<Rightarrow> browser \<Rightarrow> state \<Rightarrow> state" where
  "call_listeners [] t b s = s"
| "call_listeners ((t', h) # ls) t b s =
     call_listeners ls t b (if t' = t then call_handler h b s else s)"

definition dispatchEvent :: "event_type \<Rightarrow> browser \<Rightarrow> state \<Rightarrow> state" where
  "dispatchEvent t b s = call_listeners (listeners s) t b s"

definition dispose :: "resource \<Rightarrow> state \<Rightarrow> state" where
  "dispose r s = s\<lparr>disposed := disposed s @ [r]\<rparr>"

definition cleanup :: "state \<Rightarrow> state" where
  "cleanup s =
     (let s1 = removeEventListener Scroll HandleScroll s;
          s2 = removeEventListener Resize HandleResize s1;
          s3 = dispose BoxGeometry s2;
          s4 = dispose BoxMaterial s3;
          s5 = dispose TorusGeometry s4;
          s6 = dispose TorusMaterial s5
      in dispose Renderer s6)"

text \<open>
  The module's top level, run once when the page loads: the variables are initialised,
  the two listeners are registered, the camera is put in its default place and \<open>tick()\<close>
  runs the scheduler a first time.
\<close>

definition initial :: "revision \<Rightarrow> browser \<Rightarrow> state" where
  "initial r b =
     (let s0 = \<lparr>scrollPercent = Fin 0,
                box = \<lparr>position = BOX_INITIAL_POSITION, rotation = BOX_INITIAL_ROTATION\<rparr>,
                torus = \<lparr>position = TORUS_INITIAL_POSITION,
                         rotation = \<lparr>vec_x = Fin 0, vec_y = Fin 0, vec_z = Fin 0\<rparr>\<rparr>,
                camera = \<lparr>cam_position = \<lparr>vec_x = Fin 0, vec_y = Fin 0, vec_z = Fin 0\<rparr>,
                          cam_lookAt = None,
                          aspect = js_div (innerWidth b) (innerHeight b),
                          projection_aspect = js_div (innerWidth b) (innerHeight b)\<rparr>,
                sizes = \<lparr>width = innerWidth b, height = innerHeight b\<rparr>,
                renderer = \<lparr>render_width = innerWidth b, render_height = innerHeight b,
                            pixel_ratio = devicePixelRatio b\<rparr>,
                listeners = [], disposed = []\<rparr>;
          s1 = addEventListener Scroll HandleScroll s0;
          s2 = addEventListener Resize HandleResize s1;
          s3 = setCameraToDefault s2
      in scheduler r s3)"

text \<open>
  What happens to the page after it has loaded: events are delivered, animation frames
  run the scheduler (\<open>tick\<close>, which nothing ever cancels), and \<open>cleanup\<close> may be
  called.
\<close>

datatype action = Deliver event_type browser | Frame | Cleanup

fun step :: "revision \<Rightarrow> action \<Rightarrow> state \<Rightarrow> state" where
  "step r (Deliver t b) s = dispatchEvent t b s"
| "step r Frame s = scheduler r s"
| "step r Cleanup s = cleanup s"

fun run :: "revision \<Rightarrow> action list \<Rightarrow> state \<Rightarrow> state" where
  "run r [] s = s"
| "run r (a # as) s = run r as (step r a s)"

section \<open>Auxiliary notions\<close>

text \<open>
  \<open>untouched s s'\<close>: the two states agree on everything but the depth of the box and
  of the torus, the rotation of the box, and the position and orientation of the camera.
\<close>

definition untouched :: "state \<Rightarrow> state \<Rightarrow> bool" where
  "untouched s s' \<longleftrightarrow>
     vec_x (position (box s')) = vec_x (position (box s)) \<and>
     vec_y (position (box s')) = vec_y (position (box s)) \<and>
     vec_x (position (torus s')) = vec_x (position (torus s)) \<and>
     vec_y (position (torus s')) = vec_y (position (torus s)) \<and>
     rotation (torus s') = rotation (torus s) \<and>
     scrollPercent s' = scrollPercent s \<and>
     aspect (camera s') = aspect (camera s) \<and>
     projection_aspect (camera s') = projection_aspect (camera s) \<and>
     sizes s' = sizes s \<and> renderer s' = renderer s \<and>
     listeners s' = listeners s \<and> disposed s' = disposed s"

text \<open>
  \<open>wired s\<close>: no listener is registered twice, and none but the two the module registers.
\<close>

definition wired :: "state \<Rightarrow> bool" where
  "wired s \<longleftrightarrow> distinct (listeners s) \<and>
     set (listeners s) \<subseteq> {(Scroll, HandleScroll), (Resize, HandleResize)}"

text \<open>What the two event handlers write.\<close>

definition event_written :: "state \<Rightarrow> jsnum \<times> size \<times> jsnum \<times> jsnum \<times> webgl_renderer" where
  "event_written s =
     (scrollPercent s, sizes s, aspect (camera s), projection_aspect (camera s), renderer s)"

text \<open>
  For the examples: a browser window, and the page loaded in it and scrolled to a given
  progress.
\<close>

definition desktop :: browser where
  "desktop = \<lparr>scrollTop = Fin 0, scrollHeight = Fin 4000, clientHeight = Fin 800,
     innerWidth = Fin 1280, innerHeight = Fin 800, devicePixelRatio = Fin 1\<rparr>"

definition page_at :: "revision \<Rightarrow> real \<Rightarrow> state" where
  "page_at r p = (initial r desktop)\<lparr>scrollPercent := Fin p\<rparr>"

text \<open>\<open>Number.MAX_VALUE\<close> and \<open>Number.MIN_VALUE\<close>.\<close>

definition MAX_VALUE :: real where
  "MAX_VALUE = (2 ^ 53 - 1) * 2 ^ 971"

definition MIN_VALUE :: real where
  "MIN_VALUE = 1 / 2 ^ 1074"

section \<open>Powers of two and the binary exponent\<close>

lemma p2_less_iff: "(2::real) powi m < 2 powi n \<longleftrightarrow> m < n"
proof
  assume "(2::real) powi m < 2 powi n"
  show "m < n"
  proof (rule ccontr)
    assume "\<not> m < n"
    then have "n \<le> m" by simp
    then have "(2::real) powi n \<le> 2 powi m" by (rule power_int_increasing) simp
    with \<open>(2::real) powi m < 2 powi n\<close> show False by simp
  qed
next
  assume "m < n"
  then show "(2::real) powi m < 2 powi n" by (rule power_int_strict_increasing) simp
qed

lemma p2_le_iff: "(2::real) powi m \<le> 2 powi n \<longleftrightarrow> m \<le> n"
  using p2_less_iff [of n m] by (simp add: not_less [symmetric])

lemma p2_nat: "0 \<le> k \<Longrightarrow> (2::real) powi k = 2 ^ nat k"
  by (simp add: power_int_def)

lemma p2_split: "(2::real) powi (a + b) = 2 powi a * 2 powi b"
  by (simp add: power_int_add)

lemma p2_pos [simp]: "0 < (2::real) powi a"
  by simp

lemma ilog2_lower: assumes "0 < x" shows "2 powi (ilog2 x) \<le> x"
proof (cases "1 \<le> x")
  case True
  define n where "n = \<lfloor>x\<rfloor>"
  have n: "0 < n" using True by (simp add: n_def)
  have k: "0 \<le> bitlen n - 1" using n by (simp add: bitlen_alt_def)
  have "2 ^ nat (bitlen n - 1) \<le> n" using bitlen_bounds [OF n] by simp
  then have "(2::real) ^ nat (bitlen n - 1) \<le> of_int n"
    by (metis of_int_le_iff of_int_numeral of_int_power)
  also have "\<dots> \<le> x" by (simp add: n_def)
  finally have "(2::real) ^ nat (bitlen n - 1) \<le> x" .
  then show ?thesis using True k by (simp add: ilog2_def n_def [symmetric] p2_nat)
next
  case False
  define c where "c = \<lceil>1 / x\<rceil>"
  have "1 < 1 / x" using False assms by simp
  then have c: "0 < c - 1" unfolding c_def by linarith
  define j where "j = bitlen (c - 1)"
  have j: "0 \<le> j" by (simp add: j_def bitlen_nonneg)
  have "c - 1 < 2 ^ nat j" using bitlen_bounds [OF c] by (simp add: j_def)
  then have "c \<le> 2 ^ nat j" by simp
  then have "of_int c \<le> (2::real) ^ nat j"
    by (metis of_int_le_iff of_int_numeral of_int_power)
  moreover have "1 / x \<le> of_int c" by (simp add: c_def)
  ultimately have "1 / x \<le> 2 ^ nat j" by linarith
  then have "1 / 2 ^ nat j \<le> x" using assms
    by (simp add: field_simps)
  moreover have "(2::real) powi (- j) = 1 / 2 ^ nat j"
    using j by (simp add: power_int_minus p2_nat field_simps)
  ultimately show ?thesis using False by (simp add: ilog2_def c_def j_def)
qed

lemma ilog2_upper: assumes "0 < x" shows "x < 2 powi (ilog2 x + 1)"
proof (cases "1 \<le> x")
  case True
  define n where "n = \<lfloor>x\<rfloor>"
  have n: "0 < n" using True by (simp add: n_def)
  have k: "0 \<le> bitlen n" by (simp add: bitlen_nonneg)
  have "n < 2 ^ nat (bitlen n)" using bitlen_bounds [OF n] by simp
  then have "n + 1 \<le> 2 ^ nat (bitlen n)" by simp
  then have "of_int (n + 1) \<le> (2::real) ^ nat (bitlen n)"
    by (metis of_int_le_iff of_int_numeral of_int_power)
  moreover have "x < of_int (n + 1)" unfolding n_def by linarith
  ultimately have "x < 2 ^ nat (bitlen n)" by linarith
  then show ?thesis using True k by (simp add: ilog2_def n_def p2_nat)
next
  case False
  define c where "c = \<lceil>1 / x\<rceil>"
  have "1 < 1 / x" using False assms by simp
  then have c: "0 < c - 1" unfolding c_def by linarith
  define j where "j = bitlen (c - 1)"
  have j: "1 \<le> j" using c by (simp add: j_def bitlen_alt_def)
  have "2 ^ nat (j - 1) \<le> c - 1" using bitlen_bounds [OF c] by (simp add: j_def)
  then have "(2::real) ^ nat (j - 1) \<le> of_int (c - 1)"
    by (metis of_int_le_iff of_int_numeral of_int_power)
  moreover have "of_int (c - 1) < 1 / x" unfolding c_def by linarith
  ultimately have "2 ^ nat (j - 1) < 1 / x" by linarith
  then have "x < 1 / 2 ^ nat (j - 1)" using assms
    by (simp add: field_simps)
  moreover have "(2::real) powi (- j + 1) = 1 / 2 ^ nat (j - 1)"
  proof -
    have "(2::real) powi (- j + 1) = 2 powi (- (j - 1))" by simp
    also have "\<dots> = 1 / 2 ^ nat (j - 1)"
      using j by (simp only: power_int_minus) (simp add: p2_nat field_simps)
    finally show ?thesis .
  qed
  ultimately show ?thesis using False by (simp add: ilog2_def c_def j_def)
qed

lemma ilog2_unique:
  assumes "2 powi k \<le> x" and "x < 2 powi (k + 1)"
  shows "ilog2 x = k"
proof -
  have pos: "0 < x" using assms(1) by (rule less_le_trans [rotated]) simp
  have "(2::real) powi k < 2 powi (ilog2 x + 1)"
    using assms(1) ilog2_upper [OF pos] by simp
  moreover have "(2::real) powi (ilog2 x) < 2 powi (k + 1)"
    using assms(2) ilog2_lower [OF pos] by simp
  ultimately show ?thesis by (simp add: p2_less_iff)
qed

lemma ilog2_ge:
  assumes "2 powi j \<le> x"
  shows "j \<le> ilog2 x"
proof -
  have "0 < x" using assms by (rule less_le_trans [rotated]) simp
  from ilog2_upper [OF this] assms have "(2::real) powi j < 2 powi (ilog2 x + 1)" by linarith
  then show ?thesis by (simp only: p2_less_iff)
qed

lemma ilog2_half:
  assumes "0 < x"
  shows "ilog2 (x / 2) = ilog2 x - 1"
proof (rule ilog2_unique)
  have "(2::real) powi (ilog2 x - 1) = 2 powi (ilog2 x) / 2"
    by (simp add: power_int_diff)
  then show "2 powi (ilog2 x - 1) \<le> x / 2"
    using ilog2_lower [OF assms] by simp
  have "(2::real) powi (ilog2 x - 1 + 1) = 2 powi (ilog2 x + 1) / 2"
    by (simp add: power_int_add)
  then show "x / 2 < 2 powi (ilog2 x - 1 + 1)"
    using ilog2_upper [OF assms] by simp
qed

section \<open>Rounding\<close>

lemma rhe_of_int [simp]: "rhe (of_int n) = n"
  by (simp add: rhe_def Let_def)

lemma rhe_close: "\<bar>of_int (rhe r) - r\<bar> \<le> 1 / 2"
proof -
  define f where "f = \<lfloor>r\<rfloor>"
  define d where "d = r - of_int f"
  have d: "0 \<le> d" "d < 1" unfolding d_def f_def by linarith+
  have r: "r = of_int f + d" by (simp add: d_def)
  have "rhe r = f \<and> d \<le> 1 / 2 \<or> rhe r = f + 1 \<and> 1 / 2 \<le> d"
    unfolding rhe_def Let_def f_def [symmetric] d_def [symmetric] by auto
  then show ?thesis
    using d unfolding r by auto
qed

lemma rhe_abs_le:
  assumes "\<bar>r\<bar> < of_int n"
  shows "\<bar>rhe r\<bar> \<le> n"
proof -
  have "\<bar>of_int (rhe r) :: real\<bar> < of_int n + 1 / 2"
    using rhe_close [of r] assms by linarith
  then have "of_int \<bar>rhe r\<bar> < (of_int (n + 1) :: real)" by simp
  then have "\<bar>rhe r\<bar> < n + 1" by (simp only: of_int_less_iff)
  then show ?thesis by simp
qed

lemma rhe_abs_ge:
  assumes "of_int n \<le> \<bar>r\<bar>"
  shows "n \<le> \<bar>rhe r\<bar>"
proof -
  have "of_int n - 1 / 2 \<le> \<bar>of_int (rhe r) :: real\<bar>"
    using rhe_close [of r] assms by linarith
  then have "(of_int (n - 1) :: real) < of_int \<bar>rhe r\<bar>" by simp
  then have "n - 1 < \<bar>rhe r\<bar>" by (simp only: of_int_less_iff)
  then show ?thesis by simp
qed

lemma expo_ge: "- 1074 \<le> expo x"
  by (simp add: expo_def)

lemma expo_ilog2: "ilog2 \<bar>x\<bar> - 52 \<le> expo x"
  by (simp add: expo_def)

lemma expo_le:
  assumes "x \<noteq> 0" and "\<bar>x\<bar> < 2 powi (e + 53)" and "- 1074 \<le> e"
  shows "expo x \<le> e"
proof -
  have "2 powi (ilog2 \<bar>x\<bar>) \<le> \<bar>x\<bar>" using assms(1) by (intro ilog2_lower) simp
  with assms(2) have "(2::real) powi (ilog2 \<bar>x\<bar>) < 2 powi (e + 53)" by linarith
  then have "ilog2 \<bar>x\<bar> < e + 53" by (simp only: p2_less_iff)
  with assms(3) show ?thesis by (simp add: expo_def)
qed

lemma expo_half:
  assumes "x \<noteq> 0" and "- 1074 < expo x"
  shows "expo (x / 2) = expo x - 1"
proof -
  have "ilog2 \<bar>x / 2\<bar> = ilog2 \<bar>x\<bar> - 1"
    using ilog2_half [of "\<bar>x\<bar>"] assms(1) by simp
  then show ?thesis using assms(2) by (simp add: expo_def max_def split: if_splits)
qed

lemma expo_subnormal:
  assumes "x \<noteq> 0" and "\<not> - 1074 < expo x"
  shows "\<bar>x\<bar> < 2 powi (- 1021)"
proof (rule ccontr)
  assume "\<not> \<bar>x\<bar> < 2 powi (- 1021)"
  then have "2 powi (- 1021) \<le> \<bar>x\<bar>" by (simp only: not_less)
  then have "- 1021 \<le> ilog2 \<bar>x\<bar>" by (rule ilog2_ge)
  then show False using assms(2) by (simp add: expo_def)
qed

text \<open>The value before rounding, counted in units of the last place, has 53 bits.\<close>

lemma scaled_upper:
  assumes "x \<noteq> 0"
  shows "\<bar>x / 2 powi (expo x)\<bar> < 2 ^ 53"
proof -
  have "\<bar>x\<bar> < 2 powi (ilog2 \<bar>x\<bar> + 1)" using assms by (intro ilog2_upper) simp
  also have "\<dots> \<le> 2 powi (expo x + 53)"
    using expo_ilog2 [of x] by (simp only: p2_le_iff)
  also have "\<dots> = 2 ^ 53 * 2 powi (expo x)" by (simp add: power_int_add)
  finally show ?thesis by (simp add: abs_divide field_simps)
qed

lemma scaled_lower:
  assumes "x \<noteq> 0" and "- 1074 < expo x"
  shows "2 ^ 52 \<le> \<bar>x / 2 powi (expo x)\<bar>"
proof -
  have e: "expo x = ilog2 \<bar>x\<bar> - 52" using assms(2) by (simp add: expo_def max_def split: if_splits)
  have "(2::real) ^ 52 * 2 powi (expo x) = 2 powi (ilog2 \<bar>x\<bar>)"
    unfolding e by (simp add: power_int_diff)
  also have "\<dots> \<le> \<bar>x\<bar>" using assms(1) by (intro ilog2_lower) simp
  finally show ?thesis by (simp add: abs_divide field_simps)
qed

lemma scaled_lower_subnormal:
  assumes "2 powi (- 1074) \<le> \<bar>x\<bar>"
  shows "1 \<le> \<bar>x / 2 powi (expo x)\<bar>"
proof (cases "- 1074 < expo x")
  case True
  have "x \<noteq> 0" using assms by (auto simp: not_le)
  have "(1::real) \<le> 2 ^ 52" by simp
  also note scaled_lower [OF \<open>x \<noteq> 0\<close> True]
  finally show ?thesis .
next
  case False
  then have "expo x = - 1074" using expo_ge [of x] by simp
  with assms have "1 * 2 powi (expo x) \<le> \<bar>x\<bar>" by simp
  then have "1 \<le> \<bar>x\<bar> / 2 powi (expo x)"
    by (simp only: pos_le_divide_eq p2_pos)
  then show ?thesis by (simp only: abs_divide) simp
qed

text \<open>The shape of a finite result of rounding.\<close>

lemma rnd_FinD:
  assumes "rnd x = Fin z" and "x \<noteq> 0"
  shows "z = of_int (rhe (x / 2 powi (expo x))) * 2 powi (expo x) \<and> \<bar>z\<bar> < 2 ^ 1024"
  using assms by (simp add: rnd_def Let_def split: if_splits)

lemma rnd_FinI:
  assumes "x \<noteq> 0" and "z = of_int (rhe (x / 2 powi (expo x))) * 2 powi (expo x)"
    and "\<bar>z\<bar> < 2 ^ 1024"
  shows "rnd x = Fin z"
  using assms by (simp add: rnd_def Let_def)

lemma rnd_exact:
  assumes "x \<noteq> 0" and "x = of_int n * 2 powi (expo x)" and "\<bar>x\<bar> < 2 ^ 1024"
  shows "rnd x = Fin x"
proof -
  have "x / 2 powi (expo x) = of_int n"
    using assms(2) by (metis nonzero_mult_div_cancel_right p2_pos less_irrefl)
  then have "of_int (rhe (x / 2 powi (expo x))) * 2 powi (expo x) = x"
    using assms(2) by simp
  then show ?thesis
    using assms(1,3) by (simp add: rnd_def Let_def)
qed

lemma rnd_0 [simp]: "rnd 0 = Fin 0"
  by (simp add: rnd_def)

lemma rnd_not_NaN [simp]: "rnd x \<noteq> NaN"
  by (simp add: rnd_def Let_def)

text \<open>
  The binary64 values: an integer of fewer than 54 bits, scaled by a power of two
  between \<open>2 powi (- 1074)\<close> and \<open>2 powi 971\<close>, is representable.
\<close>

lemma representable_scaled:
  assumes m: "\<bar>m\<bar> < 2 ^ 53" and e: "- 1074 \<le> e" "e \<le> 971"
  shows "representable (of_int m * 2 powi e)"
proof (cases "m = 0")
  case True
  then show ?thesis by (simp add: representable_def rnd_def)
next
  case False
  define x :: real where "x = of_int m * 2 powi e"
  have x0: "x \<noteq> 0" using False by (simp add: x_def)
  have "\<bar>of_int m :: real\<bar> < 2 ^ 53"
    using m by (metis of_int_abs of_int_less_iff of_int_numeral of_int_power)
  then have "\<bar>x\<bar> < 2 ^ 53 * 2 powi e"
    by (simp add: x_def abs_mult)
  also have "\<dots> = 2 powi (e + 53)"
    by (simp add: power_int_add)
  finally have ub: "\<bar>x\<bar> < 2 powi (e + 53)" .
  have le: "expo x \<le> e" by (rule expo_le [OF x0 ub e(1)])
  have "(2::real) powi e = 2 powi (e - expo x) * 2 powi (expo x)"
    by (simp flip: power_int_add)
  also have "(2::real) powi (e - expo x) = of_int (2 ^ nat (e - expo x))"
    using le by (simp add: p2_nat)
  finally have "x = of_int (m * 2 ^ nat (e - expo x)) * 2 powi (expo x)"
    by (simp add: x_def)
  moreover have "\<bar>x\<bar> < 2 ^ 1024"
  proof -
    have "(2::real) powi (e + 53) \<le> 2 powi 1024"
      using e(2) by (simp only: p2_le_iff)
    with ub show ?thesis by simp
  qed
  ultimately have "rnd x = Fin x" by (rule rnd_exact [OF x0])
  then show ?thesis by (simp add: representable_def x_def)
qed

lemma representable_small:
  assumes "\<bar>of_int n * 2 powi e\<bar> < (2::real) powi (e + 53)" and "- 1074 \<le> e" "e \<le> 971"
  shows "representable (of_int n * 2 powi e)"
proof -
  have "\<bar>of_int n :: real\<bar> * 2 powi e < 2 ^ 53 * 2 powi e"
    using assms(1) by (simp add: abs_mult power_int_add)
  then have "\<bar>of_int n :: real\<bar> < 2 ^ 53"
    by (simp only: mult_less_cancel_right_pos p2_pos)
  then have "\<bar>n\<bar> < 2 ^ 53"
    by (metis of_int_abs of_int_less_iff of_int_numeral of_int_power)
  then show ?thesis using assms(2,3) by (rule representable_scaled)
qed

lemma representable_0 [simp]: "representable 0"
  by (simp add: representable_def rnd_def)

lemma rnd_dyadic:
  assumes "\<bar>m\<bar> < 2 ^ 53" and "k \<le> 1074"
  shows "rnd (of_int m / 2 ^ k) = Fin (of_int m / 2 ^ k)"
proof -
  have "representable (of_int m * 2 powi (- int k))"
    using assms by (intro representable_scaled) simp_all
  moreover have "(2::real) powi (- int k) = 1 / 2 ^ k"
    by (simp add: power_int_minus field_simps)
  ultimately show ?thesis by (simp add: representable_def)
qed

lemma rnd_int:
  assumes "\<bar>m\<bar> < 2 ^ 53"
  shows "rnd (of_int m) = Fin (of_int m)"
  using rnd_dyadic [OF assms, of 0] by simp

lemma rnd_numeral [simp]: "numeral n < (2::int) ^ 53 \<Longrightarrow> rnd (numeral n) = Fin (numeral n)"
  using rnd_int [of "numeral n"] by simp

lemma rnd_neg_numeral [simp]:
  "numeral n < (2::int) ^ 53 \<Longrightarrow> rnd (- numeral n) = Fin (- numeral n)"
  using rnd_int [of "- numeral n"] by simp

lemma rnd_1 [simp]: "rnd 1 = Fin 1"
  using rnd_int [of 1] by simp

lemma rnd_half_lit [simp]: "rnd (1 / 2) = Fin (1 / 2)"
  using rnd_dyadic [of 1 1] by simp

text \<open>Every representable real is a multiple of the smallest positive binary64 value.\<close>

lemma grid_coarsen:
  assumes "e' \<le> e"
  shows "\<exists>n :: int. of_int m * 2 powi e = (of_int n :: real) * 2 powi e'"
proof -
  have "(2::real) powi e = 2 powi (e - e') * 2 powi e'"
    by (simp only: p2_split [symmetric]) simp
  also have "(2::real) powi (e - e') = of_int (2 ^ nat (e - e'))"
    using assms by (simp add: p2_nat)
  finally have "of_int m * 2 powi e = (of_int (m * 2 ^ nat (e - e')) :: real) * 2 powi e'"
    by simp
  then show ?thesis by blast
qed

lemma representable_grid:
  assumes "representable x"
  shows "\<exists>n :: int. x = of_int n * 2 powi (- 1074)"
proof (cases "x = 0")
  case True
  then show ?thesis by (intro exI [of _ 0]) simp
next
  case False
  define m where "m = rhe (x / 2 powi (expo x))"
  have x: "x = of_int m * 2 powi (expo x)"
    using rnd_FinD [OF assms [unfolded representable_def] False] by (simp add: m_def)
  show ?thesis
    using grid_coarsen [OF expo_ge [of x], of m] x by simp
qed

text \<open>Rounding never turns a real of at least that size into zero.\<close>

lemma rnd_nonzero:
  assumes "2 powi (- 1074) \<le> \<bar>x\<bar>"
  shows "rnd x \<noteq> Fin 0"
proof
  assume z: "rnd x = Fin 0"
  have x0: "x \<noteq> 0" using assms by (auto simp: not_le)
  have "1 \<le> \<bar>rhe (x / 2 powi (expo x))\<bar>"
    using scaled_lower_subnormal [OF assms] by (intro rhe_abs_ge) simp
  then have "rhe (x / 2 powi (expo x)) \<noteq> 0" by auto
  with rnd_FinD [OF z x0] show False by simp
qed

lemma rnd_diff_nonzero:
  assumes "representable s" and "representable e" and "s \<noteq> e"
  shows "rnd (e - s) \<noteq> Fin 0"
proof (rule rnd_nonzero)
  obtain n1 :: int where n1: "s = of_int n1 * 2 powi (- 1074)"
    using representable_grid [OF assms(1)] by blast
  obtain n2 :: int where n2: "e = of_int n2 * 2 powi (- 1074)"
    using representable_grid [OF assms(2)] by blast
  have "n1 \<noteq> n2" using assms(3) n1 n2 by auto
  then have "1 \<le> \<bar>n2 - n1\<bar>" by simp
  then have "(1::real) \<le> \<bar>of_int (n2 - n1)\<bar>"
    by (metis of_int_abs of_int_1_le_iff)
  then have "1 * 2 powi (- 1074) \<le> \<bar>of_int (n2 - n1) :: real\<bar> * 2 powi (- 1074)"
    by (simp only: mult_le_cancel_right_pos p2_pos)
  then have "2 powi (- 1074) \<le> \<bar>of_int (n2 - n1) :: real\<bar> * 2 powi (- 1074)"
    by (simp only: mult_1)
  moreover have "e - s = of_int (n2 - n1) * 2 powi (- 1074)"
    unfolding n1 n2 by (simp only: of_int_diff left_diff_distrib)
  moreover have "\<bar>(2::real) powi (- 1074)\<bar> = 2 powi (- 1074)"
    by (rule abs_of_pos) (rule p2_pos)
  ultimately show "2 powi (- 1074) \<le> \<bar>e - s\<bar>"
    by (simp only: abs_mult)
qed

text \<open>What rounding returns is representable.\<close>

lemma rnd_representable:
  assumes "rnd x = Fin z"
  shows "representable z"
proof (cases "x = 0")
  case True
  with assms show ?thesis by (simp add: rnd_def)
next
  case False
  define m where "m = rhe (x / 2 powi (expo x))"
  have z: "z = of_int m * 2 powi (expo x)"
    using rnd_FinD [OF assms False] by (simp add: m_def)
  have fin: "\<bar>z\<bar> < 2 ^ 1024"
    using rnd_FinD [OF assms False] by (rule conjunct2)
  have m_le: "\<bar>m\<bar> \<le> 2 ^ 53"
    unfolding m_def using scaled_upper [OF False] by (intro rhe_abs_le) simp
  show ?thesis
  proof (cases "m = 0")
    case True
    then show ?thesis by (simp add: z)
  next
    case m0: False
    have e_hi: "expo x + 52 < 1024" if "2 ^ 52 \<le> \<bar>m\<bar>"
    proof -
      have "(2::real) ^ 52 \<le> \<bar>of_int m\<bar>"
        using that by (metis of_int_abs of_int_le_iff of_int_numeral of_int_power)
      then have "2 ^ 52 * 2 powi (expo x) \<le> \<bar>z\<bar>"
        by (simp add: z abs_mult)
      with fin have "(2::real) powi (expo x + 52) < 2 powi 1024"
        by (simp add: power_int_add)
      then show ?thesis by (simp only: p2_less_iff)
    qed
    have m_ge: "2 ^ 52 \<le> \<bar>m\<bar>" if "- 1074 < expo x"
      unfolding m_def using scaled_lower [OF False that] by (intro rhe_abs_ge) simp
    show ?thesis
    proof (cases "\<bar>m\<bar> < 2 ^ 53")
      case True
      have "expo x \<le> 971"
      proof (cases "- 1074 < expo x")
        case True
        from e_hi [OF m_ge [OF this]] show ?thesis by simp
      next
        case False
        then show ?thesis by simp
      qed
      with True show ?thesis
        unfolding z by (intro representable_scaled expo_ge)
    next
      case False
      with m_le have m: "\<bar>m\<bar> = 2 ^ 53" by simp
      then have "expo x + 52 < 1024" by (intro e_hi) simp
      moreover have "(2::real) ^ 53 * 2 powi (expo x) \<le> \<bar>z\<bar>"
      proof -
        have "\<bar>of_int m :: real\<bar> = 2 ^ 53"
          using m by (metis of_int_abs of_int_numeral of_int_power)
        then show ?thesis by (simp add: z abs_mult)
      qed
      then have "(2::real) powi (expo x + 53) < 2 powi 1024"
        using fin by (simp add: power_int_add)
      then have hi: "expo x + 53 < 1024" by (simp only: p2_less_iff)
      define h :: int where "h = (if 0 < m then 2 ^ 52 else - (2 ^ 52))"
      have mh: "m = 2 * h" using m by (auto simp: h_def abs_if split: if_splits)
      have "z = of_int h * 2 powi (expo x + 1)"
        by (simp add: z mh power_int_add)
      moreover have "\<bar>h\<bar> < 2 ^ 53" by (simp add: h_def)
      moreover have "- 1074 \<le> expo x + 1" using expo_ge [of x] by simp
      moreover have "expo x + 1 \<le> 971" using hi by simp
      ultimately show ?thesis by (simp only: representable_scaled)
    qed
  qed
qed

text \<open>Halving is exact above the subnormal range, and so commutes with rounding there.\<close>

lemma rnd_half:
  assumes "rnd w = Fin z" and "w \<noteq> 0" and "- 1074 < expo w"
  shows "rnd (w / 2) = Fin (z / 2)"
proof (rule rnd_FinI)
  show "w / 2 \<noteq> 0" using assms(2) by simp
  have e: "expo (w / 2) = expo w - 1" by (rule expo_half [OF assms(2,3)])
  have p: "(2::real) powi (expo w - 1) = 2 powi (expo w) / 2"
    by (simp add: power_int_diff)
  have "w / 2 / 2 powi (expo (w / 2)) = w / 2 powi (expo w)"
    unfolding e p by simp
  then show "z / 2 = of_int (rhe (w / 2 / 2 powi (expo (w / 2)))) * 2 powi (expo (w / 2))"
    using rnd_FinD [OF assms(1,2)] unfolding e p by simp
  show "\<bar>z / 2\<bar> < 2 ^ 1024"
    using rnd_FinD [OF assms(1,2)] by (simp only: abs_divide) linarith
qed

text \<open>Halving commutes with rounding a sum whose halved terms are representable.\<close>

lemma rnd_half_sum:
  assumes hx: "representable (x / 2)" and hy: "representable (y / 2)"
    and z: "rnd (x + y) = Fin z"
  shows "rnd (x / 2 + y / 2) = rnd (z / 2)"
proof -
  define w where "w = x + y"
  have half: "x / 2 + y / 2 = w / 2" by (simp add: w_def)
  show ?thesis
  proof (cases "w = 0")
    case True
    with z show ?thesis unfolding half by (simp add: w_def rnd_def)
  next
    case w0: False
    show ?thesis
    proof (cases "- 1074 < expo w")
      case True
      have "rnd (w / 2) = Fin (z / 2)"
        using z w0 True unfolding w_def [symmetric] by (rule rnd_half)
      moreover from this have "representable (z / 2)" by (rule rnd_representable)
      ultimately show ?thesis unfolding half by (simp add: representable_def)
    next
      case False
      obtain n1 :: int where n1: "x / 2 = of_int n1 * 2 powi (- 1074)"
        using representable_grid [OF hx] by blast
      obtain n2 :: int where n2: "y / 2 = of_int n2 * 2 powi (- 1074)"
        using representable_grid [OF hy] by blast
      have "w = 2 * (x / 2 + y / 2)" by (simp add: w_def)
      also have "\<dots> = of_int (n1 + n2) * (2 * 2 powi (- 1074))"
        unfolding n1 n2 by (simp only: of_int_add ring_distribs mult_ac)
      also have "2 * (2::real) powi (- 1074) = 2 powi (- 1073)"
        using p2_split [of 1 "- 1074"] by simp
      finally have w: "w = of_int (n1 + n2) * 2 powi (- 1073)" .
      have small: "\<bar>w\<bar> < 2 powi (- 1021)" by (rule expo_subnormal [OF w0 False])
      have "representable w"
        unfolding w using small unfolding w by (intro representable_small) simp_all
      then have "z = w" using z by (simp add: representable_def w_def)
      then show ?thesis unfolding half by simp
    qed
  qed
qed

text \<open>Rounding at a given real, from its binary exponent; and overflow.\<close>

lemma rnd_eval:
  assumes "2 powi k \<le> \<bar>x\<bar>" and "\<bar>x\<bar> < 2 powi (k + 1)" and "e = max (k - 52) (- 1074)"
    and "rhe (x / 2 powi e) = m" and "\<bar>of_int m * 2 powi e\<bar> < (2::real) ^ 1024"
  shows "rnd x = Fin (of_int m * 2 powi e)"
proof -
  have "ilog2 \<bar>x\<bar> = k" using assms(1,2) by (rule ilog2_unique)
  then have e: "expo x = e" by (simp add: expo_def assms(3))
  have "0 < \<bar>x\<bar>" using assms(1) by (rule less_le_trans [rotated]) simp
  then have "x \<noteq> 0" by simp
  then show ?thesis
    using assms(4,5) by (intro rnd_FinI) (simp_all add: e)
qed

lemma rnd_overflow:
  assumes "2 ^ 1024 \<le> x"
  shows "rnd x = PInf"
proof -
  have x: "0 < x" using assms by (rule less_le_trans [rotated]) simp
  have "(2::real) powi 1024 \<le> \<bar>x\<bar>" using assms x by simp
  then have k: "1024 \<le> ilog2 \<bar>x\<bar>" by (rule ilog2_ge)
  then have e: "- 1074 < expo x" "972 \<le> expo x" by (simp_all add: expo_def)
  define m where "m = rhe (x / 2 powi (expo x))"
  have "2 ^ 52 \<le> \<bar>m\<bar>"
    unfolding m_def using scaled_lower [of x] x e(1) by (intro rhe_abs_ge) simp
  then have "(2::real) ^ 52 \<le> \<bar>of_int m\<bar>"
    by (metis of_int_abs of_int_le_iff of_int_numeral of_int_power)
  then have "(2::real) ^ 52 * 2 powi (expo x) \<le> \<bar>of_int m * 2 powi (expo x)\<bar>"
    by (simp add: abs_mult)
  moreover have "(2::real) powi 1024 \<le> 2 powi (expo x + 52)"
    using e(2) by (simp only: p2_le_iff)
  then have "(2::real) ^ 1024 \<le> 2 ^ 52 * 2 powi (expo x)"
    by (simp add: power_int_add)
  ultimately have "(2::real) ^ 1024 \<le> \<bar>of_int m * 2 powi (expo x)\<bar>" by linarith
  then show ?thesis
    using x by (simp add: rnd_def Let_def m_def)
qed

lemma representable_MAX: "representable MAX_VALUE" "representable (MAX_VALUE / 2)"
  using representable_scaled [of "2 ^ 53 - 1" 971] representable_scaled [of "2 ^ 53 - 1" 970]
  by (simp_all add: MAX_VALUE_def)

section \<open>The arithmetic operators at zero and NaN\<close>

lemma js_div_by_zero: "\<not> isFinite (js_div n (Fin 0))"
  by (cases n) simp_all

lemma js_div_by_NaN [simp]: "js_div n NaN = NaN"
  by (cases n) simp_all

lemma js_add_NaN [simp]: "js_add n NaN = NaN"
  by (cases n) simp_all

lemma js_sub_self: "js_sub a a = Fin 0 \<or> js_sub a a = NaN"
  by (cases a) (simp_all add: js_sub_def)

section \<open>The interpolator\<close>

text \<open>
  C4, as the code has it. For all finite numbers \<open>a\<close> and \<open>b\<close>, \<open>lerp(a, b, 0) == a\<close>
  and \<open>lerp(a, b, 1) == b\<close>. The third equation, \<open>lerp(a, b, 0.5) == (a + b) / 2\<close>,
  holds when \<open>a / 2\<close> and \<open>b / 2\<close> are exact and \<open>a + b\<close> does not overflow; both
  sides are JavaScript expressions, every operator rounding its result.
\<close>

theorem lerp_endpoints_midpoint:
  assumes "representable x" and "representable y"
  shows "lerp (Fin x) (Fin y) (Fin 0) = Fin x \<and>
         lerp (Fin x) (Fin y) (Fin 1) = Fin y \<and>
         (representable (x / 2) \<and> representable (y / 2) \<and> isFinite (js_add (Fin x) (Fin y)) \<longrightarrow>
            lerp (Fin x) (Fin y) lit_0_5 = js_div (js_add (Fin x) (Fin y)) (Fin 2))"
proof (intro conjI impI)
  show "lerp (Fin x) (Fin y) (Fin 0) = Fin x"
    using assms by (simp add: lerp_def js_sub_def representable_def)
  show "lerp (Fin x) (Fin y) (Fin 1) = Fin y"
    using assms by (simp add: lerp_def js_sub_def representable_def)
  assume h: "representable (x / 2) \<and> representable (y / 2) \<and> isFinite (js_add (Fin x) (Fin y))"
  then obtain z where z: "rnd (x + y) = Fin z"
    by (cases "rnd (x + y)") simp_all
  have "rnd (x / 2 + y / 2) = rnd (z / 2)"
    using h z by (intro rnd_half_sum) simp_all
  then show "lerp (Fin x) (Fin y) lit_0_5 = js_div (js_add (Fin x) (Fin y)) (Fin 2)"
    using h z by (simp add: lerp_def js_sub_def lit_0_5_def representable_def)
qed

text \<open>The theorem at \<open>a = 1\<close>, \<open>b = 3\<close>.\<close>

theorem lerp_endpoints_midpoint_witness:
  "representable 1 \<and> representable 3 \<and> representable (1 / 2) \<and> representable (3 / 2) \<and>
   isFinite (js_add (Fin 1) (Fin 3)) \<and>
   lerp (Fin 1) (Fin 3) (Fin 0) = Fin 1 \<and> lerp (Fin 1) (Fin 3) (Fin 1) = Fin 3 \<and>
   lerp (Fin 1) (Fin 3) lit_0_5 = Fin 2"
proof -
  have r: "representable 1" "representable 3" "representable (1 / 2)" "representable (3 / 2)"
    using rnd_dyadic [of 3 1] by (simp_all add: representable_def)
  have f: "isFinite (js_add (Fin 1) (Fin 3))" by simp
  show ?thesis
    using r f lerp_endpoints_midpoint [OF r(1,2)] by simp
qed

text \<open>
  C4 as stated fails at \<open>a = b = Number.MAX_VALUE\<close>, a finite number:
  \<open>lerp(a, b, 0.5)\<close> is \<open>a\<close>, while \<open>a + b\<close> overflows and \<open>(a + b) / 2\<close> is
  \<open>Infinity\<close>.
\<close>

theorem lerp_midpoint_overflow:
  "representable MAX_VALUE \<and>
   lerp (Fin MAX_VALUE) (Fin MAX_VALUE) lit_0_5 = Fin MAX_VALUE \<and>
   js_div (js_add (Fin MAX_VALUE) (Fin MAX_VALUE)) (Fin 2) = PInf"
proof -
  have "rnd (MAX_VALUE + MAX_VALUE) = PInf"
    by (rule rnd_overflow) (simp add: MAX_VALUE_def)
  then show ?thesis
    using representable_MAX
    by (simp add: lerp_def js_sub_def lit_0_5_def representable_def)
qed

text \<open>
  It fails at the other end of the range too: with \<open>a = b = Number.MIN_VALUE\<close> the
  halves round to zero, so \<open>lerp(a, b, 0.5)\<close> is 0 while \<open>(a + b) / 2\<close> is \<open>a\<close>.
\<close>

lemma lerp_midpoint_underflow:
  "representable MIN_VALUE \<and> lerp (Fin MIN_VALUE) (Fin MIN_VALUE) lit_0_5 = Fin 0 \<and>
   js_div (js_add (Fin MIN_VALUE) (Fin MIN_VALUE)) (Fin 2) = Fin MIN_VALUE"
proof -
  have one: "rnd (1 / 2 ^ 1074) = Fin (1 / 2 ^ 1074)"
    using rnd_dyadic [of 1 1074] by simp
  have two: "rnd (1 / 2 ^ 1073) = Fin (1 / 2 ^ 1073)"
    using rnd_dyadic [of 1 1073] by simp
  have half: "rnd (1 / 2 ^ 1075) = Fin 0"
    using rnd_eval [of "- 1075" "1 / 2 ^ 1075" "- 1074" 0] by (simp add: rhe_def Let_def)
  show ?thesis
    using one two half
    by (simp add: MIN_VALUE_def representable_def lerp_def js_sub_def lit_0_5_def)
qed

text \<open>
  C5, as the code has it. For finite range bounds \<open>s \<noteq> e\<close>, \<open>scalePercent(s, e)\<close>
  is 0 when the progress is \<open>s\<close>; when the progress is \<open>e\<close> it is 1 provided
  \<open>e - s\<close> does not overflow.
\<close>

theorem scalePercent_at_bounds:
  assumes "representable s" and "representable e" and "s \<noteq> e"
  shows "scalePercent (Fin s) (Fin e) (st\<lparr>scrollPercent := Fin s\<rparr>) = Fin 0 \<and>
         (isFinite (js_sub (Fin e) (Fin s)) \<longrightarrow>
            scalePercent (Fin s) (Fin e) (st\<lparr>scrollPercent := Fin e\<rparr>) = Fin 1)"
proof -
  have nz: "rnd (e - s) \<noteq> Fin 0" by (rule rnd_diff_nonzero [OF assms])
  show ?thesis
  proof (cases "rnd (e - s)")
    case (Fin d)
    with nz have "d \<noteq> 0" by simp
    with Fin show ?thesis by (simp add: scalePercent_def js_sub_def)
  qed (simp_all add: scalePercent_def js_sub_def)
qed

text \<open>The theorem at the bounds 80 and 100 of the last range.\<close>

theorem scalePercent_at_bounds_witness:
  "representable 80 \<and> representable 100 \<and> (80::real) \<noteq> 100 \<and>
   isFinite (js_sub (Fin 100) (Fin 80)) \<and>
   scalePercent (Fin 80) (Fin 100) (page_at With_break 80) = Fin 0 \<and>
   scalePercent (Fin 80) (Fin 100) (page_at With_break 100) = Fin 1"
proof -
  have r: "representable 80" "representable 100" by (simp_all add: representable_def)
  have f: "isFinite (js_sub (Fin 100) (Fin 80))" by (simp add: js_sub_def)
  show ?thesis
    using r f scalePercent_at_bounds [OF r, of "initial With_break desktop"] by (simp add: page_at_def)
qed

text \<open>
  C5 as stated fails at \<open>s = -Number.MAX_VALUE\<close>, \<open>e = Number.MAX_VALUE\<close>: both
  differences overflow, and with the progress at \<open>e\<close> the quotient
  \<open>Infinity / Infinity\<close> is NaN, not 1.
\<close>

theorem scalePercent_end_overflow:
  "representable (- MAX_VALUE) \<and> representable MAX_VALUE \<and>
   \<not> js_eq (Fin (- MAX_VALUE)) (Fin MAX_VALUE) \<and>
   scalePercent (Fin (- MAX_VALUE)) (Fin MAX_VALUE) (page_at With_break MAX_VALUE) = NaN"
proof -
  have "rnd (MAX_VALUE + MAX_VALUE) = PInf"
    by (rule rnd_overflow) (simp add: MAX_VALUE_def)
  moreover have "representable (- MAX_VALUE)"
    using representable_scaled [of "- (2 ^ 53 - 1)" 971] by (simp add: MAX_VALUE_def)
  moreover have "- MAX_VALUE \<noteq> MAX_VALUE" by (simp add: MAX_VALUE_def)
  ultimately show ?thesis
    using representable_MAX(1) by (simp add: scalePercent_def js_sub_def js_eq_def page_at_def)
qed

text \<open>
  Nor does it hold with an infinite bound: with \<open>s = Infinity\<close> and \<open>e = 0\<close> the
  result at progress \<open>s\<close> is NaN, not 0.
\<close>

lemma scalePercent_infinite_bound:
  "scalePercent PInf (Fin 0) (st\<lparr>scrollPercent := PInf\<rparr>) = NaN"
  by (simp add: scalePercent_def js_sub_def)

text \<open>
  Two numbers that are not \<open>==\<close> never have a zero difference: the subtraction of two
  distinct finite numbers does not underflow to zero, and with an infinite or NaN
  operand it gives an infinity or NaN.
\<close>

lemma divisor_nonzero:
  assumes "js_number s" and "js_number e" and "\<not> js_eq s e"
  shows "js_sub e s \<noteq> Fin 0"
proof (cases s)
  case s: (Fin x)
  show ?thesis
  proof (cases e)
    case (Fin y)
    with s assms have "rnd (y - x) \<noteq> Fin 0"
      by (intro rnd_diff_nonzero) (auto simp: js_eq_def)
    with s Fin show ?thesis by (simp add: js_sub_def)
  qed (simp_all add: s js_sub_def)
next
  case PInf
  then show ?thesis by (cases e) (simp_all add: js_sub_def)
next
  case NInf
  then show ?thesis by (cases e) (simp_all add: js_sub_def)
next
  case NaN
  then show ?thesis by (simp add: js_sub_def)
qed

text \<open>Division by anything but zero, case by case.\<close>

lemma js_div_table:
  assumes "d \<noteq> Fin 0"
  shows "js_div n d =
     (case (n, d) of
        (Fin a, Fin b) \<Rightarrow> rnd (a / b)
      | (Fin a, PInf) \<Rightarrow> Fin 0
      | (Fin a, NInf) \<Rightarrow> Fin 0
      | (PInf, Fin b) \<Rightarrow> (if 0 < b then PInf else NInf)
      | (NInf, Fin b) \<Rightarrow> (if 0 < b then NInf else PInf)
      | _ \<Rightarrow> NaN)"
  using assms by (cases n; cases d) auto

lemma js_div_NaN_iff:
  assumes "d \<noteq> Fin 0"
  shows "js_div n d = NaN \<longleftrightarrow> n = NaN \<or> d = NaN \<or> \<not> isFinite n \<and> \<not> isFinite d"
  using assms by (cases n; cases d) auto

text \<open>
  C6, as the code has it. \<open>scalePercent\<close> has no guard: with equal bounds it divides
  by zero (or, when the bound is not finite, by NaN) and its result is not finite.
  With bounds \<open>s != e\<close>, whatever numbers they are, the divisor \<open>e - s\<close> is never
  zero, and the result is \<open>(progress - s) / (e - s)\<close> as JavaScript computes it: the
  rounded quotient of the two differences when both are finite, 0 when only the
  divisor is infinite, an infinity when only the dividend is, and NaN otherwise. So the
  result is NaN exactly when a difference is NaN or both are infinite.
\<close>

theorem scalePercent_division:
  "\<not> isFinite (scalePercent a a st) \<and>
   (js_number s \<and> js_number e \<and> \<not> js_eq s e \<longrightarrow>
      js_sub e s \<noteq> Fin 0 \<and>
      scalePercent s e st =
        (case (js_sub (scrollPercent st) s, js_sub e s) of
           (Fin n, Fin d) \<Rightarrow> rnd (n / d)
         | (Fin n, PInf) \<Rightarrow> Fin 0
         | (Fin n, NInf) \<Rightarrow> Fin 0
         | (PInf, Fin d) \<Rightarrow> (if 0 < d then PInf else NInf)
         | (NInf, Fin d) \<Rightarrow> (if 0 < d then NInf else PInf)
         | _ \<Rightarrow> NaN) \<and>
      (scalePercent s e st = NaN \<longleftrightarrow>
         js_sub (scrollPercent st) s = NaN \<or> js_sub e s = NaN \<or>
         \<not> isFinite (js_sub (scrollPercent st) s) \<and> \<not> isFinite (js_sub e s)))"
proof (intro conjI impI)
  show "\<not> isFinite (scalePercent a a st)"
    using js_sub_self [of a] by (auto simp: scalePercent_def js_div_by_zero)
next
  assume h: "js_number s \<and> js_number e \<and> \<not> js_eq s e"
  then show nz: "js_sub e s \<noteq> Fin 0" by (intro divisor_nonzero) simp_all
  show "scalePercent s e st =
        (case (js_sub (scrollPercent st) s, js_sub e s) of
           (Fin n, Fin d) \<Rightarrow> rnd (n / d)
         | (Fin n, PInf) \<Rightarrow> Fin 0
         | (Fin n, NInf) \<Rightarrow> Fin 0
         | (PInf, Fin d) \<Rightarrow> (if 0 < d then PInf else NInf)
         | (NInf, Fin d) \<Rightarrow> (if 0 < d then NInf else PInf)
         | _ \<Rightarrow> NaN)"
    unfolding scalePercent_def by (rule js_div_table [OF nz])
  show "scalePercent s e st = NaN \<longleftrightarrow>
         js_sub (scrollPercent st) s = NaN \<or> js_sub e s = NaN \<or>
         \<not> isFinite (js_sub (scrollPercent st) s) \<and> \<not> isFinite (js_sub e s)"
    unfolding scalePercent_def by (rule js_div_NaN_iff [OF nz])
qed

text \<open>
  The theorem at the bounds 80 and 100 with the progress at 90; and what equal bounds
  give at a progress on and off the bound.
\<close>

theorem scalePercent_division_witness:
  "js_number (Fin 80) \<and> js_number (Fin 100) \<and> \<not> js_eq (Fin 80) (Fin 100) \<and>
   js_sub (scrollPercent (page_at With_break 90)) (Fin 80) = Fin 10 \<and>
   js_sub (Fin 100) (Fin 80) = Fin 20 \<and>
   scalePercent (Fin 80) (Fin 100) (page_at With_break 90) = Fin (1 / 2) \<and>
   scalePercent (Fin 40) (Fin 40) (page_at With_break 40) = NaN \<and>
   scalePercent (Fin 40) (Fin 40) (page_at With_break 50) = PInf \<and>
   \<not> isFinite (scalePercent (Fin 40) (Fin 40) (page_at With_break 90))"
proof -
  have r: "js_number (Fin 80) \<and> js_number (Fin 100) \<and> \<not> js_eq (Fin 80) (Fin 100)"
    by (simp add: representable_def js_eq_def)
  have d: "js_sub (scrollPercent (page_at With_break 90)) (Fin 80) = Fin 10 \<and>
      js_sub (Fin 100) (Fin 80) = Fin 20"
    by (simp add: page_at_def js_sub_def)
  have q: "scalePercent (Fin 80) (Fin 100) (page_at With_break 90) = Fin (1 / 2)"
    using r d scalePercent_division [of "Fin 40" "page_at With_break 90" "Fin 80" "Fin 100"]
    by simp
  show ?thesis
    using r d q by (simp add: scalePercent_def page_at_def js_sub_def)
qed

text \<open>
  C6 as stated fails, since distinct bounds do not make the result a number: with
  \<open>s = -Number.MAX_VALUE\<close>, \<open>e = Number.MAX_VALUE\<close> and the progress at \<open>e\<close> both
  differences overflow and the result is NaN; and with the bounds 0 and 40 of the first
  range the result is NaN at a NaN progress and \<open>Infinity\<close> at an infinite one.
\<close>

theorem scalePercent_distinct_bounds_undefined:
  "js_number (Fin (- MAX_VALUE)) \<and> js_number (Fin MAX_VALUE) \<and>
   \<not> js_eq (Fin (- MAX_VALUE)) (Fin MAX_VALUE) \<and>
   js_sub (Fin MAX_VALUE) (Fin (- MAX_VALUE)) = PInf \<and>
   scalePercent (Fin (- MAX_VALUE)) (Fin MAX_VALUE) (page_at With_break MAX_VALUE) = NaN \<and>
   \<not> js_eq (Fin 0) (Fin 40) \<and>
   scalePercent (Fin 0) (Fin 40) ((initial With_break desktop)\<lparr>scrollPercent := NaN\<rparr>) = NaN \<and>
   scalePercent (Fin 0) (Fin 40) ((initial With_break desktop)\<lparr>scrollPercent := PInf\<rparr>) = PInf"
proof -
  have "rnd (MAX_VALUE + MAX_VALUE) = PInf"
    by (rule rnd_overflow) (simp add: MAX_VALUE_def)
  moreover have "representable (- MAX_VALUE)"
    using representable_scaled [of "- (2 ^ 53 - 1)" 971] by (simp add: MAX_VALUE_def)
  moreover have "- MAX_VALUE \<noteq> MAX_VALUE" by (simp add: MAX_VALUE_def)
  ultimately show ?thesis
    using representable_MAX(1) by (simp add: scalePercent_def js_sub_def js_eq_def page_at_def)
qed

section \<open>What a scheduler tick leaves alone\<close>

lemma untouched_refl: "untouched s s"
  by (simp add: untouched_def)

lemma untouched_trans: "untouched s s' \<Longrightarrow> untouched s' s'' \<Longrightarrow> untouched s s''"
  by (simp add: untouched_def)

lemma untouched_intro: "untouched s (intro_function s)"
  by (simp add: untouched_def intro_function_def setCameraToDefault_def camera_lookAt_box_def Let_def)

lemma untouched_rotation: "untouched s (rotation_function s)"
  by (simp add: untouched_def rotation_function_def setCameraToDefault_def camera_lookAt_box_def Let_def)

lemma untouched_camera_move: "untouched s (camera_move_function s)"
  by (simp add: untouched_def camera_move_function_def camera_lookAt_box_def Let_def)

lemma untouched_final_spin: "untouched s (final_spin_function s)"
  by (simp add: untouched_def final_spin_function_def Let_def)

lemma untouched_final_spin_main: "untouched s (final_spin_function_main s)"
  by (simp add: untouched_def final_spin_function_main_def Let_def)

lemma untouched_idle_spin: "untouched s (idle_spin s)"
  by (simp add: untouched_def idle_spin_def Let_def)

lemma untouched_for_of_break:
  "(\<And>a t. a \<in> set as \<Longrightarrow> untouched t (anim_function a t)) \<Longrightarrow>
   untouched s (snd (for_of_break as s))"
  by (induction as) (auto simp: untouched_refl)

lemma untouched_forEach:
  "(\<And>a t. a \<in> set as \<Longrightarrow> untouched t (anim_function a t)) \<Longrightarrow>
   untouched s (snd (forEach as s))"
proof (induction as arbitrary: s)
  case Nil
  then show ?case by (simp add: untouched_refl)
next
  case (Cons a as)
  have step: "untouched s (anim_function a s)"
    using Cons.prems by simp
  have rest: "untouched t (snd (forEach as t))" for t
    using Cons.IH Cons.prems by simp
  show ?case
    using step rest [of s] rest [of "anim_function a s"]
    by (auto simp: split_beta intro: untouched_trans)
qed

lemma untouched_playScrollAnimation: "untouched s (playScrollAnimation s)"
  unfolding playScrollAnimation_def
  by (rule untouched_trans [OF untouched_for_of_break untouched_idle_spin])
     (auto simp: animationScripts_def entry_def untouched_intro untouched_rotation
        untouched_camera_move untouched_final_spin)

lemma untouched_playScrollAnimation_main: "untouched s (playScrollAnimation_main s)"
  unfolding playScrollAnimation_main_def
  by (rule untouched_forEach)
     (auto simp: animationScripts_main_def entry_def untouched_intro untouched_rotation
        untouched_camera_move untouched_final_spin_main)

text \<open>
  C10. Whatever the progress, a scheduler tick leaves \<open>box.position.x\<close>,
  \<open>box.position.y\<close>, \<open>torus.position.x\<close>, \<open>torus.position.y\<close> and \<open>torus.rotation\<close>
  as they were; so it writes nothing of the scene but \<open>box.position.z\<close>,
  \<open>box.rotation\<close>, \<open>torus.position.z\<close> and the position and orientation of the
  camera. This holds of the scheduler with the break and the idle spin, and of the
  \<open>forEach\<close> scheduler of \<open>src/main.js\<close>.
\<close>

theorem scheduler_frame:
  "vec_x (position (box (playScrollAnimation s))) = vec_x (position (box s)) \<and>
   vec_y (position (box (playScrollAnimation s))) = vec_y (position (box s)) \<and>
   vec_x (position (torus (playScrollAnimation s))) = vec_x (position (torus s)) \<and>
   vec_y (position (torus (playScrollAnimation s))) = vec_y (position (torus s)) \<and>
   rotation (torus (playScrollAnimation s)) = rotation (torus s) \<and>
   vec_x (position (box (playScrollAnimation_main s))) = vec_x (position (box s)) \<and>
   vec_y (position (box (playScrollAnimation_main s))) = vec_y (position (box s)) \<and>
   vec_x (position (torus (playScrollAnimation_main s))) = vec_x (position (torus s)) \<and>
   vec_y (position (torus (playScrollAnimation_main s))) = vec_y (position (torus s)) \<and>
   rotation (torus (playScrollAnimation_main s)) = rotation (torus s)"
  using untouched_playScrollAnimation [of s] untouched_playScrollAnimation_main [of s]
  by (simp add: untouched_def)

section \<open>The page as loaded\<close>

lemma scrollPercent_intro [simp]: "scrollPercent (intro_function s) = scrollPercent s"
  using untouched_intro [of s] by (simp add: untouched_def)

lemma scrollPercent_rotation [simp]: "scrollPercent (rotation_function s) = scrollPercent s"
  using untouched_rotation [of s] by (simp add: untouched_def)

lemma untouched_scheduler: "untouched s (scheduler r s)"
  by (cases r) (simp_all add: untouched_playScrollAnimation untouched_playScrollAnimation_main)

lemma listeners_scheduler [simp]: "listeners (scheduler r s) = listeners s"
  using untouched_scheduler [of s r] by (simp add: untouched_def)

lemma listeners_initial:
  "listeners (initial r b) = [(Scroll, HandleScroll), (Resize, HandleResize)]"
  by (simp add: initial_def Let_def addEventListener_def setCameraToDefault_def
      camera_lookAt_box_def)

text \<open>
  The first tick, at progress 0, runs the Intro entry alone in both revisions and leaves
  the rotation of the box as the module set it.
\<close>

lemma rotation_box_initial: "rotation (box (initial r b)) = BOX_INITIAL_ROTATION"
  by (cases r)
     (simp_all add: initial_def Let_def addEventListener_def setCameraToDefault_def
        camera_lookAt_box_def playScrollAnimation_def playScrollAnimation_main_def
        animationScripts_def animationScripts_main_def entry_def isInRange_def js_ge_def
        idle_spin_def intro_function_def split_beta)

lemma rotation_initial:
  "rotation (box (page_at r p)) = \<lparr>vec_x = Fin 1, vec_y = Fin 1, vec_z = Fin 0\<rparr>"
  by (simp add: page_at_def rotation_box_initial BOX_INITIAL_ROTATION_def)

lemma scrollPercent_page_at: "scrollPercent (page_at r p) = Fin p"
  by (simp add: page_at_def)

section \<open>The timeline entries\<close>

text \<open>
  C7. With the progress at 0 the Intro entry sets \<open>box.position.z\<close> to exactly -15 and
  \<open>torus.position.z\<close> to exactly 10; with the progress at 40 it sets them to exactly
  2 and -20.
\<close>

theorem intro_at_range_ends:
  "vec_z (position (box (intro_function (st\<lparr>scrollPercent := Fin 0\<rparr>)))) = Fin (- 15) \<and>
   vec_z (position (torus (intro_function (st\<lparr>scrollPercent := Fin 0\<rparr>)))) = Fin 10 \<and>
   vec_z (position (box (intro_function (st\<lparr>scrollPercent := Fin 40\<rparr>)))) = Fin 2 \<and>
   vec_z (position (torus (intro_function (st\<lparr>scrollPercent := Fin 40\<rparr>)))) = Fin (- 20)"
  by (simp add: intro_function_def setCameraToDefault_def camera_lookAt_box_def Let_def
      scalePercent_def lerp_def js_sub_def)

text \<open>
  The FinalSpin entry of the documented revision interpolates from
  \<open>BOX_INITIAL_ROTATION\<close> towards \<open>Math.PI * 4\<close>: what it writes depends on the
  progress alone, not on the rotation the box has, and calling it again at the same
  progress changes nothing.
\<close>

lemma final_spin_fixed_origin:
  "final_spin_function (final_spin_function s) = final_spin_function s \<and>
   vec_x (rotation (box (final_spin_function s))) =
     lerp (vec_x BOX_INITIAL_ROTATION) (js_mul Math_PI (Fin 4)) (scalePercent (Fin 80) (Fin 100) s) \<and>
   vec_y (rotation (box (final_spin_function s))) =
     lerp (vec_y BOX_INITIAL_ROTATION) (js_mul Math_PI (Fin 4)) (scalePercent (Fin 80) (Fin 100) s) \<and>
   scalePercent (Fin 80) (Fin 100) (s\<lparr>box := b\<rparr>) = scalePercent (Fin 80) (Fin 100) s"
  by (simp add: final_spin_function_def scalePercent_def Let_def)

text \<open>
  C2 asks that FinalSpin interpolate from the fixed initial rotation towards \<open>4\<pi>\<close>, so
  that calling it again at the same progress changes nothing; the documented revision
  does that (\<open>final_spin_fixed_origin\<close>). The FinalSpin entry of \<open>src/main.js\<close>
  interpolates from the rotation the box has at the call towards \<open>Math.PI * 2\<close>. At
  progress 90, on the page as loaded (rotation 1 about both axes), a first call gives
  \<open>0.5 + \<pi>\<close> and a second call at the same progress gives \<open>0.25 + 1.5\<pi>\<close>: the
  rotation drifts from call to call.
\<close>

theorem final_spin_main_accumulates:
  "rotation (box (page_at With_forEach 90)) = \<lparr>vec_x = Fin 1, vec_y = Fin 1, vec_z = Fin 0\<rparr> \<and>
   rotation (box (final_spin_function_main (page_at With_forEach 90))) =
     \<lparr>vec_x = Fin (1025017207358883 / 2 ^ 48), vec_y = Fin (1025017207358883 / 2 ^ 48),
      vec_z = Fin 0\<rparr> \<and>
   rotation (box (final_spin_function_main (final_spin_function_main (page_at With_forEach 90)))) =
     \<lparr>vec_x = Fin (2793576645365993 / 2 ^ 49), vec_y = Fin (2793576645365993 / 2 ^ 49),
      vec_z = Fin 0\<rparr>"
  using rnd_dyadic [of 884279719003555 47] rnd_dyadic [of 884279719003555 48]
    rnd_dyadic [of 1025017207358883 48] rnd_dyadic [of 1025017207358883 49]
    rnd_dyadic [of 2793576645365993 49]
  by (simp add: final_spin_function_main_def rotation_initial scrollPercent_page_at Let_def
      scalePercent_def lerp_def js_sub_def Math_PI_def)

section \<open>Which entries a tick runs\<close>

lemma for_of_break_at_most_one: "length (fst (for_of_break as s)) \<le> 1"
  by (induction as) auto

text \<open>
  The scheduler with the break runs at most one entry at every progress, and at 40,
  which lies in the ranges of both Intro and Rotation, it runs Intro alone.
\<close>

lemma fired_at_most_one:
  "length (fired s) \<le> 1 \<and> fired (s\<lparr>scrollPercent := Fin 40\<rparr>) = [INTRO]"
  by (simp add: fired_def for_of_break_at_most_one animationScripts_def entry_def
      isInRange_def js_ge_def)

text \<open>
  C1 asks for at most one entry per tick, the earlier range winning at a shared bound:
  at progress 40 Intro and not Rotation. The scheduler with the break does that
  (\<open>fired_at_most_one\<close>). The \<open>forEach\<close> scheduler of \<open>src/main.js\<close> has no break:
  at progress 40 it runs the Intro entry and then the Rotation entry in the same tick.
\<close>

theorem forEach_runs_two_entries_at_40:
  "fired_main (s\<lparr>scrollPercent := Fin 40\<rparr>) = [INTRO, ROTATION]"
  by (simp add: fired_main_def animationScripts_main_def entry_def isInRange_def
      js_ge_def split_beta)

lemma fired_100: "fired (st\<lparr>scrollPercent := Fin 100\<rparr>) = [FINAL_SPIN]"
  by (simp add: fired_def animationScripts_def entry_def isInRange_def js_ge_def)

text \<open>
  C3 asks that the idle spin add 0.01 to the rotation of the box about x and y on every
  tick at progress 100 or more, so that repeated ticks at progress 100 turn the box
  further and further. At progress 100 the scheduler runs FinalSpin and then the idle
  spin. FinalSpin
  writes \<open>4\<pi>\<close> over the rotation about both axes, whatever it was, and the idle spin
  adds 0.01: after every tick the rotation is the same \<open>4\<pi> + 0.01\<close>, a second tick
  returns the state of the first, and nothing accumulates.
\<close>

theorem idle_spin_overwritten_at_100:
  "fired (st\<lparr>scrollPercent := Fin 100\<rparr>) = [FINAL_SPIN] \<and>
   playScrollAnimation (playScrollAnimation (st\<lparr>scrollPercent := Fin 100\<rparr>)) =
     playScrollAnimation (st\<lparr>scrollPercent := Fin 100\<rparr>) \<and>
   vec_x (rotation (box (playScrollAnimation (st\<lparr>scrollPercent := Fin 100\<rparr>)))) =
     Fin (7079867251562653 / 2 ^ 49) \<and>
   vec_y (rotation (box (playScrollAnimation (st\<lparr>scrollPercent := Fin 100\<rparr>)))) =
     Fin (7079867251562653 / 2 ^ 49)"
proof -
  have pi4: "rnd (884279719003555 / 2 ^ 46) = Fin (884279719003555 / 2 ^ 46)"
    using rnd_dyadic [of 884279719003555 46] by simp
  have sum: "rnd (884279719003555 / 2 ^ 46 + 5764607523034235 / 2 ^ 59) =
      Fin (7079867251562653 / 2 ^ 49)"
    using rnd_eval [of 3 "884279719003555 / 2 ^ 46 + 5764607523034235 / 2 ^ 59" "- 49"
        7079867251562653]
    by (simp add: rhe_def Let_def)
  show ?thesis
    using pi4 sum
    by (simp add: fired_100 playScrollAnimation_def animationScripts_def entry_def isInRange_def
        js_ge_def final_spin_function_def idle_spin_def Let_def scalePercent_def lerp_def
        js_sub_def Math_PI_def lit_0_01_def BOX_INITIAL_ROTATION_def)
qed

lemma outside_no_entry:
  assumes "\<not> (js_ge (scrollPercent s) (Fin 0) \<and> js_le (scrollPercent s) (Fin 100))"
  shows "\<not> isInRange (entry k f) s"
  using assms
  by (cases k; cases "scrollPercent s") (auto simp: isInRange_def entry_def js_ge_def)

text \<open>
  C8, as the code has it. When the progress is outside \<open>[0, 100]\<close> (NaN included) no
  timeline entry runs. The \<open>forEach\<close> scheduler of \<open>src/main.js\<close> then leaves the
  state as it was. The scheduler with the idle spin leaves it as it was when the
  progress is not at least 100; when it is, nothing changes but the rotation of the box
  about x and y, to each of which 0.01 is added.
\<close>

theorem outside_timeline:
  assumes "\<not> (js_ge (scrollPercent s) (Fin 0) \<and> js_le (scrollPercent s) (Fin 100))"
  shows "fired s = [] \<and> fired_main s = [] \<and> playScrollAnimation_main s = s \<and>
         playScrollAnimation s =
           (if js_ge (scrollPercent s) (Fin 100)
            then s\<lparr>box := (box s)\<lparr>rotation := (rotation (box s))
                   \<lparr>vec_x := js_add (vec_x (rotation (box s))) lit_0_01,
                    vec_y := js_add (vec_y (rotation (box s))) lit_0_01\<rparr>\<rparr>\<rparr>
            else s)"
  using outside_no_entry [OF assms]
  by (simp add: fired_def fired_main_def playScrollAnimation_def playScrollAnimation_main_def
      animationScripts_def animationScripts_main_def idle_spin_def Let_def)

text \<open>The theorem at progress -5, where both schedulers leave the page as it was.\<close>

theorem outside_timeline_witness:
  "\<not> (js_ge (scrollPercent (page_at With_break (- 5))) (Fin 0) \<and> js_le (scrollPercent (page_at With_break (- 5))) (Fin 100)) \<and>
   fired (page_at With_break (- 5)) = [] \<and> fired_main (page_at With_break (- 5)) = [] \<and>
   playScrollAnimation_main (page_at With_break (- 5)) = page_at With_break (- 5) \<and>
   playScrollAnimation (page_at With_break (- 5)) = page_at With_break (- 5)"
proof -
  have out: "\<not> (js_ge (scrollPercent (page_at With_break (- 5))) (Fin 0) \<and> js_le (scrollPercent (page_at With_break (- 5))) (Fin 100))"
    by (simp add: scrollPercent_page_at js_ge_def)
  show ?thesis
    using out outside_timeline [OF out] by (simp add: scrollPercent_page_at js_ge_def)
qed

text \<open>
  C8 as stated fails at progress 150: no entry runs, and the tick turns the rotation of
  the box about x and y from 1 into 1.01.
\<close>

theorem idle_spin_above_100:
  "\<not> (js_ge (Fin 150) (Fin 0) \<and> js_le (Fin 150) (Fin 100)) \<and>
   fired (page_at With_break 150) = [] \<and>
   rotation (box (page_at With_break 150)) = \<lparr>vec_x = Fin 1, vec_y = Fin 1, vec_z = Fin 0\<rparr> \<and>
   rotation (box (playScrollAnimation (page_at With_break 150))) =
     \<lparr>vec_x = Fin (4548635623644201 / 2 ^ 52), vec_y = Fin (4548635623644201 / 2 ^ 52),
      vec_z = Fin 0\<rparr>"
proof -
  have sum: "rnd (1 + 5764607523034235 / 2 ^ 59) = Fin (4548635623644201 / 2 ^ 52)"
    using rnd_eval [of 0 "1 + 5764607523034235 / 2 ^ 59" "- 52" 4548635623644201]
    by (simp add: rhe_def Let_def)
  have out: "\<not> (js_ge (scrollPercent (page_at With_break 150)) (Fin 0) \<and> js_le (scrollPercent (page_at With_break 150)) (Fin 100))"
    by (simp add: scrollPercent_page_at js_ge_def)
  show ?thesis
    using sum outside_no_entry [OF out]
    by (simp add: fired_def playScrollAnimation_def animationScripts_def idle_spin_def Let_def
        rotation_initial scrollPercent_page_at js_ge_def lit_0_01_def)
qed

text \<open>
  Above 100 the idle spin does accumulate: a second tick at progress 150 turns the
  rotation from 1.01 into 1.02.
\<close>

lemma idle_spin_accumulates_above_100:
  "rotation (box (playScrollAnimation (playScrollAnimation (page_at With_break 150)))) =
     \<lparr>vec_x = Fin (2296835809958953 / 2 ^ 51), vec_y = Fin (2296835809958953 / 2 ^ 51),
      vec_z = Fin 0\<rparr>"
proof -
  have one: "rnd (1 + 5764607523034235 / 2 ^ 59) = Fin (4548635623644201 / 2 ^ 52)"
    using rnd_eval [of 0 "1 + 5764607523034235 / 2 ^ 59" "- 52" 4548635623644201]
    by (simp add: rhe_def Let_def)
  have two: "rnd (4548635623644201 / 2 ^ 52 + 5764607523034235 / 2 ^ 59) =
      Fin (2296835809958953 / 2 ^ 51)"
    using rnd_eval [of 0 "4548635623644201 / 2 ^ 52 + 5764607523034235 / 2 ^ 59" "- 52"
        4593671619917906]
    by (simp add: rhe_def Let_def)
  have out: "\<not> (js_ge (scrollPercent s) (Fin 0) \<and> js_le (scrollPercent s) (Fin 100))"
    if "scrollPercent s = Fin 150" for s :: state
    using that by (simp add: js_ge_def)
  have tick: "playScrollAnimation s = idle_spin s" if "scrollPercent s = Fin 150" for s
    using outside_no_entry [OF out [OF that]]
    by (simp add: playScrollAnimation_def animationScripts_def)
  have first: "scrollPercent (idle_spin (page_at With_break 150)) = Fin 150"
    by (simp add: idle_spin_def Let_def scrollPercent_page_at)
  show ?thesis
    using one two
    by (simp add: tick first scrollPercent_page_at)
       (simp add: idle_spin_def Let_def scrollPercent_page_at rotation_initial js_ge_def
          lit_0_01_def)
qed

section \<open>Events and cleanup\<close>

lemma listeners_handleScroll [simp]: "listeners (handleScroll b s) = listeners s"
  by (simp add: handleScroll_def)

lemma listeners_handleResize [simp]: "listeners (handleResize b s) = listeners s"
  by (simp add: handleResize_def Let_def)

lemma listeners_call_handler [simp]: "listeners (call_handler h b s) = listeners s"
  by (cases h) simp_all

lemma listeners_call_listeners [simp]: "listeners (call_listeners ls t b s) = listeners s"
  by (induction ls arbitrary: s) auto

lemma listeners_dispatchEvent [simp]: "listeners (dispatchEvent t b s) = listeners s"
  by (simp add: dispatchEvent_def)

lemma listeners_cleanup:
  "listeners (cleanup s) = remove1 (Resize, HandleResize) (remove1 (Scroll, HandleScroll) (listeners s))"
  by (simp add: cleanup_def removeEventListener_def dispose_def Let_def)

lemma wired_initial: "wired (initial r b)"
  by (simp add: wired_def listeners_initial)

lemma wired_remove1: "wired s \<Longrightarrow> listeners s' = remove1 x (listeners s) \<Longrightarrow> wired s'"
  unfolding wired_def using set_remove1_subset [of x "listeners s"] by auto

lemma wired_step: "wired s \<Longrightarrow> wired (step r a s)"
proof (cases a)
  case (Deliver t b)
  assume "wired s"
  then show ?thesis using Deliver by (simp add: wired_def)
next
  case Frame
  assume "wired s"
  then show ?thesis using Frame by (simp add: wired_def)
next
  case Cleanup
  assume w: "wired s"
  have "wired (removeEventListener Scroll HandleScroll s)"
    by (rule wired_remove1 [OF w]) (simp add: removeEventListener_def)
  then have "wired (removeEventListener Resize HandleResize (removeEventListener Scroll HandleScroll s))"
    by (rule wired_remove1) (simp add: removeEventListener_def)
  then show ?thesis
    using Cleanup by (simp add: wired_def listeners_cleanup removeEventListener_def)
qed

lemma wired_run: "wired s \<Longrightarrow> wired (run r as s)"
  by (induction as arbitrary: s) (auto intro: wired_step)

lemma remove_both:
  assumes "distinct ls" and "set ls \<subseteq> {x, y}"
  shows "remove1 y (remove1 x ls) = []"
proof -
  have "set (remove1 y (remove1 x ls)) = set ls - {x} - {y}"
    using assms(1) by simp
  with assms(2) have "set (remove1 y (remove1 x ls)) = {}" by auto
  then show ?thesis by simp
qed

lemma listeners_cleanup_wired: "wired s \<Longrightarrow> listeners (cleanup s) = []"
  unfolding listeners_cleanup wired_def by (rule remove_both) auto

lemma dispatch_unwired: "listeners s = [] \<Longrightarrow> dispatchEvent t b s = s"
  by (simp add: dispatchEvent_def)

lemma event_written_cleanup: "event_written (cleanup s) = event_written s"
  by (simp add: event_written_def cleanup_def removeEventListener_def dispose_def Let_def)

lemma event_written_frame: "event_written (scheduler r s) = event_written s"
  using untouched_scheduler [of s r] by (simp add: event_written_def untouched_def)

lemma unwired_step:
  assumes "listeners s = []"
  shows "listeners (step r a s) = [] \<and> event_written (step r a s) = event_written s"
proof (cases a)
  case (Deliver t b)
  then show ?thesis using assms by (simp add: dispatch_unwired)
next
  case Frame
  then show ?thesis using assms by (simp add: event_written_frame)
next
  case Cleanup
  then show ?thesis using assms by (simp add: listeners_cleanup event_written_cleanup)
qed

lemma unwired_run:
  "listeners s = [] \<Longrightarrow>
   listeners (run r as s) = [] \<and> event_written (run r as s) = event_written s"
proof (induction as arbitrary: s)
  case Nil
  then show ?case by simp
next
  case (Cons a as)
  from unwired_step [OF Cons.prems, of r a] Cons.IH [of "step r a s"]
  show ?case by simp
qed

text \<open>Before \<open>cleanup\<close> the two events do write the progress and the size.\<close>

lemma events_before_cleanup:
  "scrollPercent (dispatchEvent Scroll (desktop\<lparr>scrollTop := Fin 1600\<rparr>) (initial r desktop)) = Fin 50 \<and>
   sizes (dispatchEvent Resize (desktop\<lparr>innerWidth := Fin 640\<rparr>) (initial r desktop)) =
     \<lparr>width = Fin 640, height = Fin 800\<rparr>"
  by (simp add: dispatchEvent_def listeners_initial handleScroll_def handleResize_def
      desktop_def js_sub_def Let_def)

text \<open>
  C9. Take the page as loaded, let anything happen to it (events, frames, earlier
  calls of \<open>cleanup\<close>), and call \<open>cleanup\<close>. A scroll event or a resize event delivered
  next leaves the whole state as it is; and whatever is delivered or run afterwards,
  the progress, the size, the aspect and projection of the camera and the size of the
  renderer stay what they were when \<open>cleanup\<close> returned.
\<close>

theorem events_after_cleanup:
  "dispatchEvent Scroll b1 (cleanup (run r pre (initial r b0))) = cleanup (run r pre (initial r b0)) \<and>
   dispatchEvent Resize b2 (cleanup (run r pre (initial r b0))) = cleanup (run r pre (initial r b0)) \<and>
   scrollPercent (run r post (cleanup (run r pre (initial r b0)))) =
     scrollPercent (cleanup (run r pre (initial r b0))) \<and>
   sizes (run r post (cleanup (run r pre (initial r b0)))) = sizes (cleanup (run r pre (initial r b0))) \<and>
   aspect (camera (run r post (cleanup (run r pre (initial r b0))))) =
     aspect (camera (cleanup (run r pre (initial r b0)))) \<and>
   projection_aspect (camera (run r post (cleanup (run r pre (initial r b0))))) =
     projection_aspect (camera (cleanup (run r pre (initial r b0)))) \<and>
   renderer (run r post (cleanup (run r pre (initial r b0)))) =
     renderer (cleanup (run r pre (initial r b0)))"
proof -
  have "wired (run r pre (initial r b0))" by (intro wired_run wired_initial)
  then have off: "listeners (cleanup (run r pre (initial r b0))) = []"
    by (rule listeners_cleanup_wired)
  from unwired_run [OF off, of r post] dispatch_unwired [OF off]
  show ?thesis by (simp add: event_written_def)
qed

end
